theory Spec2Isabelle
  imports Complex_Main "HOL-Library.Multiset" "HOL-Library.Sublist"
begin

section \<open>Python strings, slices and number printing\<close>

text \<open>
  A Python \<open>str\<close> is modelled as a \<open>string\<close>, one \<open>char\<close> standing for one code
  point below 256, so that \<open>length\<close> is Python's \<open>len\<close> on such texts.
\<close>

text \<open>\<open>str.isspace\<close> on one code point below 256: TAB..CR, FS..US, space, NEL, NBSP.\<close>

definition is_space :: "char \<Rightarrow> bool" where
  "is_space c = (let k = of_char c :: nat in
     (9 \<le> k \<and> k \<le> 13) \<or> (28 \<le> k \<and> k \<le> 32) \<or> k = 133 \<or> k = 160)"

text \<open>\<open>s.strip()\<close>: drop leading and trailing whitespace.\<close>

definition lstrip :: "string \<Rightarrow> string" where
  "lstrip s = dropWhile is_space s"

definition rstrip :: "string \<Rightarrow> string" where
  "rstrip s = rev (dropWhile is_space (rev s))"

definition strip :: "string \<Rightarrow> string" where
  "strip s = rstrip (lstrip s)"

text \<open>\<open>sep.join(xs)\<close>.\<close>

fun join :: "string \<Rightarrow> string list \<Rightarrow> string" where
  "join sep [] = []"
| "join sep [x] = x"
| "join sep (x # y # ys) = x @ sep @ join sep (y # ys)"

text \<open>
  \<open>s[i:j]\<close> with Python's treatment of negative and out-of-range bounds: a negative bound
  counts from the end, and both bounds are clamped to \<open>0..len(s)\<close>.
\<close>

definition clamp_index :: "nat \<Rightarrow> int \<Rightarrow> nat" where
  "clamp_index n i = (if i < 0 then nat (max 0 (int n + i)) else min n (nat i))"

definition py_slice :: "'a list \<Rightarrow> int \<Rightarrow> int \<Rightarrow> 'a list" where
  "py_slice s i j =
     (let a = clamp_index (length s) i; b = clamp_index (length s) j
      in take (b - a) (drop a s))"

text \<open>\<open>s[i:]\<close> and \<open>s[:j]\<close>.\<close>

definition py_slice_from :: "'a list \<Rightarrow> int \<Rightarrow> 'a list" where
  "py_slice_from s i = drop (clamp_index (length s) i) s"

definition py_slice_to :: "'a list \<Rightarrow> int \<Rightarrow> 'a list" where
  "py_slice_to s j = take (clamp_index (length s) j) s"

text \<open>\<open>str(n)\<close> for an integer: decimal digits, a minus sign for a negative number.\<close>

definition digit_char :: "nat \<Rightarrow> char" where
  "digit_char d =
     (if d = 0 then CHR ''0'' else if d = 1 then CHR ''1'' else if d = 2 then CHR ''2''
      else if d = 3 then CHR ''3'' else if d = 4 then CHR ''4'' else if d = 5 then CHR ''5''
      else if d = 6 then CHR ''6'' else if d = 7 then CHR ''7'' else if d = 8 then CHR ''8''
      else CHR ''9'')"

function str_nat :: "nat \<Rightarrow> string" where
  "str_nat n = (if n < 10 then [digit_char n] else str_nat (n div 10) @ [digit_char (n mod 10)])"
  by pat_completeness auto
termination
  by (relation "measure id") auto

declare str_nat.simps [simp del]

definition str_int :: "int \<Rightarrow> string" where
  "str_int i = (if i < 0 then CHR ''-'' # str_nat (nat (- i)) else str_nat (nat i))"

section \<open>The chunk (models/chunk.py)\<close>

record chunk =
  chunk_id :: string
  page :: int
  chunk_text :: string
  section_hint :: "string option"

section \<open>Page-window fallback (services/ingest.py)\<close>

text \<open>
  One pass of the body of \<open>while start < n\<close> in \<open>simple_chunk_pages\<close>: the window's
  end, the chunk cut from it, and the start of the next window.
\<close>

definition window_end :: "string \<Rightarrow> int \<Rightarrow> int \<Rightarrow> int" where
  "window_end txt max_chars start = min (int (length txt)) (start + max_chars)"

definition window_chunk :: "int \<Rightarrow> string \<Rightarrow> int \<Rightarrow> int \<Rightarrow> chunk" where
  "window_chunk page_num txt start end =
     \<lparr>chunk_id = ''p'' @ str_int page_num @ ''_'' @ str_int start,
      page = page_num,
      chunk_text = py_slice txt start end,
      section_hint = None\<rparr>"

definition next_start :: "int \<Rightarrow> int \<Rightarrow> int" where
  "next_start end overlap = (if end - overlap < 0 then 0 else end - overlap)"

text \<open>
  The \<open>while\<close> loop for one page; it returns the chunk list once the loop is left and has
  no value when the loop runs forever.
\<close>

partial_function (option) window_loop ::
  "int \<Rightarrow> int \<Rightarrow> int \<Rightarrow> string \<Rightarrow> int \<Rightarrow> chunk list \<Rightarrow> chunk list option" where
  "window_loop max_chars overlap page_num txt start chunks =
     (if start < int (length txt) then
        (if window_end txt max_chars start = int (length txt) then
           Some (chunks @ [window_chunk page_num txt start (window_end txt max_chars start)])
         else
           window_loop max_chars overlap page_num txt
             (next_start (window_end txt max_chars start) overlap)
             (chunks @ [window_chunk page_num txt start (window_end txt max_chars start)]))
      else Some chunks)"

declare window_loop.simps [code]

text \<open>The outer \<open>for page_num, text in pages\<close> loop, the chunk list threaded through.\<close>

fun pages_loop :: "int \<Rightarrow> int \<Rightarrow> (int \<times> string) list \<Rightarrow> chunk list \<Rightarrow> chunk list option" where
  "pages_loop max_chars overlap [] chunks = Some chunks"
| "pages_loop max_chars overlap ((page_num, txt) # pages) chunks =
     (case window_loop max_chars overlap page_num txt 0 chunks of
        None \<Rightarrow> None
      | Some chunks' \<Rightarrow> pages_loop max_chars overlap pages chunks')"

definition simple_chunk_pages :: "(int \<times> string) list \<Rightarrow> int \<Rightarrow> int \<Rightarrow> chunk list option" where
  "simple_chunk_pages pages max_chars overlap = pages_loop max_chars overlap pages []"

section \<open>Errors and outcomes of calls into collaborators\<close>

text \<open>The exceptions the modelled code can raise or catch.\<close>

datatype error = FileNotFoundError | ImportError | IndexError | TypeError | ValueError
  | RuntimeError | SystemExit

text \<open>What a call into an external service does: it raises, or it returns a value.\<close>

datatype 'a outcome = Raises | Returns 'a

section \<open>JSON-like values\<close>

text \<open>
  The values \<open>json.loads\<close> produces and the parsed document tree is made of. A \<open>dict\<close>
  keeps its items in insertion order; a float is left opaque (type \<open>'f\<close>).
\<close>

datatype 'f json = JNull | JBool bool | JInt int | JFloat 'f | JStr string
  | JList "'f json list" | JDict "(string \<times> 'f json) list"

text \<open>\<open>d.get(k)\<close>: the value under \<open>k\<close>, \<open>None\<close> when the key is missing.\<close>

definition dict_get :: "(string \<times> 'f json) list \<Rightarrow> string \<Rightarrow> 'f json" where
  "dict_get d k = (case map_of d k of None \<Rightarrow> JNull | Some v \<Rightarrow> v)"

text \<open>\<open>k in d\<close>.\<close>

definition dict_has :: "(string \<times> 'f json) list \<Rightarrow> string \<Rightarrow> bool" where
  "dict_has d k = (case map_of d k of None \<Rightarrow> False | Some v \<Rightarrow> True)"

text \<open>
  \<open>str(v)\<close>: \<open>None\<close>, booleans, integers and strings are printed here; the \<open>repr\<close> of a
  float, a list or a dict is left to the parameter \<open>repr\<close>.
\<close>

definition py_str :: "('f json \<Rightarrow> string) \<Rightarrow> 'f json \<Rightarrow> string" where
  "py_str repr v =
     (case v of
        JNull \<Rightarrow> ''None''
      | JBool b \<Rightarrow> (if b then ''True'' else ''False'')
      | JInt i \<Rightarrow> str_int i
      | JStr s \<Rightarrow> s
      | _ \<Rightarrow> repr v)"

definition is_None :: "'f json \<Rightarrow> bool" where
  "is_None v = (case v of JNull \<Rightarrow> True | _ \<Rightarrow> False)"

section \<open>Completion adapter (adapters/llm\_groq.py)\<close>

record request =
  req_api_key :: string
  req_model :: string
  req_messages :: "(string \<times> string) list"
  req_temperature :: real
  req_max_tokens :: int

text \<open>The arguments of \<open>client.chat.completions.create\<close>.\<close>

definition chat_request :: "string \<Rightarrow> string \<Rightarrow> string \<Rightarrow> real \<Rightarrow> int \<Rightarrow> request" where
  "chat_request api_key model prompt temperature max_tokens =
     \<lparr>req_api_key = api_key, req_model = model,
      req_messages =
        [(''system'', ''You are a tender assistant. Only answer from provided context.''),
         (''user'', prompt)],
      req_temperature = temperature, req_max_tokens = max_tokens\<rparr>"

text \<open>
  \<open>GroqLLM.complete\<close>. The parameter \<open>create\<close> stands for the remote call together with
  the read of \<open>resp.choices[0].message.content\<close>, which is a string or \<open>None\<close>; whatever
  is raised inside the \<open>try\<close> is caught.
\<close>

definition complete ::
  "(request \<Rightarrow> string option outcome) \<Rightarrow> string \<Rightarrow> string \<Rightarrow> string \<Rightarrow> real \<Rightarrow> int \<Rightarrow> string" where
  "complete create api_key model prompt temperature max_tokens =
     (case create (chat_request api_key model prompt temperature max_tokens) of
        Raises \<Rightarrow> ''Not found in tender''
      | Returns None \<Rightarrow> []
      | Returns (Some content) \<Rightarrow> (if content = [] then [] else content))"

section \<open>Structured extraction (services/summarizer.py)\<close>

definition SUMMARY_FIELDS :: "string list" where
  "SUMMARY_FIELDS = [''tender_name'', ''issuer'', ''emd_amount'', ''location'', ''duration'',
     ''scope_of_work'', ''compliance_notes'']"

text \<open>A value of the summary dict: \<open>None\<close>, a string, or a list of strings.\<close>

datatype sval = SNone | SStr string | SList "string list"

type_synonym summary = "(string \<times> sval) list"

text \<open>\<open>out[k] = v\<close> on a dict kept as an item list: replace in place, append a new key.\<close>

fun dict_set :: "(string \<times> 'v) list \<Rightarrow> string \<Rightarrow> 'v \<Rightarrow> (string \<times> 'v) list" where
  "dict_set [] k v = [(k, v)]"
| "dict_set ((k', v') # kvs) k v = (if k' = k then (k, v) # kvs else (k', v') # dict_set kvs k v)"

text \<open>\<open>{k: None for k in SUMMARY_FIELDS}\<close>.\<close>

definition all_none :: summary where
  "all_none = map (\<lambda>k. (k, SNone)) SUMMARY_FIELDS"

definition NL :: string where
  "NL = [CHR 0x0A]"

definition or_empty :: "string option \<Rightarrow> string" where
  "or_empty s = (case s of None \<Rightarrow> '''' | Some x \<Rightarrow> x)"

definition prompt_span :: "chunk \<Rightarrow> string" where
  "prompt_span c = ''[page '' @ str_int (page c) @ '' | '' @ chunk_id c @ '' | ''
     @ or_empty (section_hint c) @ '']'' @ NL @ chunk_text c @ NL @ NL"

text \<open>The \<open>for c in chunks\<close> loop of \<open>build_summary_prompt\<close>, left at the first span over budget.\<close>

fun prompt_loop :: "int \<Rightarrow> chunk list \<Rightarrow> string list \<Rightarrow> int \<Rightarrow> string list" where
  "prompt_loop max_chars [] buf total_len = buf"
| "prompt_loop max_chars (c # cs) buf total_len =
     (if total_len + int (length (prompt_span c)) > max_chars then buf
      else prompt_loop max_chars cs (buf @ [prompt_span c]) (total_len + int (length (prompt_span c))))"

definition instructions :: string where
  "instructions =
     ''You are a tender document analyzer. Extract the following fields as JSON with keys: ''
     @ join '', '' SUMMARY_FIELDS
     @ ''.'' @ NL
     @ ''- tender_name: Short name or title of the tender.'' @ NL
     @ ''- issuer: The issuing organization.'' @ NL
     @ ''- emd_amount: Earnest Money Deposit value (with currency in ruppees).'' @ NL
     @ ''- location: Primary location(s) of work.'' @ NL
     @ ''- duration: Contract/project duration.'' @ NL
     @ ''- scope_of_work: 1-3 sentence summary of key scope.'' @ NL
     @ ''- compliance_notes: array of 3-8 short bullets for critical compliance/eligibility/financial terms.''
     @ NL @ NL
     @ ''Return ONLY valid JSON. If a value is not found, use null (or [] for arrays).''"

definition build_summary_prompt :: "chunk list \<Rightarrow> int \<Rightarrow> string" where
  "build_summary_prompt chunks max_chars =
     instructions @ NL @ NL @ ''Context:'' @ NL @ concat (prompt_loop max_chars chunks [] 0)"

text \<open>
  The regular-expression searches of the module, one capability per pattern, each applied
  to a text:
  \<^item> \<open>search_fence\<close>: group 1 of the first fenced \<open>json\<close> block holding a braced object;
  \<^item> \<open>search_page_toc\<close>: whether a \<open>page N\<close> or \<open>table of contents\<close> phrase occurs;
  \<^item> \<open>search_issuer\<close>: group 0 of the first organisation-keyword match;
  \<^item> \<open>search_emd\<close>: groups 1 (currency marker, optional) and 2 (number) of the first
    earnest-money match;
  \<^item> \<open>search_duration\<close>, \<open>search_location\<close>, \<open>search_scope\<close>: group 1 of the first match;
  \<^item> \<open>search_term\<close>: whether a key term occurs, case ignored;
  \<^item> \<open>split_sentences\<close>: \<open>re.split\<close> after sentence-ending punctuation followed by space.
  \<open>json_loads\<close> is \<open>json.loads\<close>, \<open>None\<close> when it raises; \<open>py_repr\<close> is \<open>repr\<close>;
  \<open>float_is_zero\<close> tells whether a float is falsy.
\<close>

record 'f lib =
  search_fence :: "string \<Rightarrow> string option"
  search_page_toc :: "string \<Rightarrow> bool"
  search_issuer :: "string \<Rightarrow> string option"
  search_emd :: "string \<Rightarrow> (string option \<times> string) option"
  search_duration :: "string \<Rightarrow> string option"
  search_location :: "string \<Rightarrow> string option"
  search_scope :: "string \<Rightarrow> string option"
  search_term :: "string \<Rightarrow> string \<Rightarrow> bool"
  split_sentences :: "string \<Rightarrow> string list"
  json_loads :: "string \<Rightarrow> 'f json option"
  py_repr :: "'f json \<Rightarrow> string"
  float_is_zero :: "'f \<Rightarrow> bool"

text \<open>\<open>text.find(c)\<close>: the index of the first occurrence, \<open>None\<close> for Python's -1.\<close>

fun find_char :: "char \<Rightarrow> string \<Rightarrow> nat option" where
  "find_char c [] = None"
| "find_char c (x # xs) =
     (if x = c then Some 0 else (case find_char c xs of None \<Rightarrow> None | Some i \<Rightarrow> Some (Suc i)))"

text \<open>
  The brace-counting loop of \<open>_extract_json_block\<close> over \<open>text[start:]\<close>: the number of
  characters up to and including the brace that brings the depth back to 0.
\<close>

fun brace_scan :: "string \<Rightarrow> int \<Rightarrow> nat \<Rightarrow> nat option" where
  "brace_scan [] depth n = None"
| "brace_scan (ch # rest) depth n =
     (if ch = CHR ''{'' then brace_scan rest (depth + 1) (Suc n)
      else if ch = CHR ''}'' then
        (if depth - 1 = 0 then Some (Suc n) else brace_scan rest (depth - 1) (Suc n))
      else brace_scan rest depth (Suc n))"

definition extract_json_block :: "'f lib \<Rightarrow> string \<Rightarrow> string option" where
  "extract_json_block l txt =
     (if txt = [] then None
      else case search_fence l txt of
        Some g \<Rightarrow> Some g
      | None \<Rightarrow>
          (case find_char (CHR ''{'') txt of
             None \<Rightarrow> None
           | Some start \<Rightarrow>
               (case brace_scan (drop start txt) 0 0 of
                  None \<Rightarrow> None
                | Some n \<Rightarrow> Some (take n (drop start txt)))))"

text \<open>
  The value \<open>_coerce_summary\<close> stores under key \<open>k\<close> for \<open>v = d.get(k)\<close>, and its
  \<open>for k in SUMMARY_FIELDS\<close> loop, updating \<open>out\<close>.
\<close>

definition coerce_value :: "('f json \<Rightarrow> string) \<Rightarrow> string \<Rightarrow> 'f json \<Rightarrow> sval" where
  "coerce_value repr k v =
     (if k = ''compliance_notes'' then
        (case v of
           JList xs \<Rightarrow> SList (map (py_str repr) (filter (\<lambda>x. \<not> is_None x) xs))
         | _ \<Rightarrow> SList [])
      else if is_None v then SNone
      else SStr (py_str repr v))"

fun coerce_loop ::
  "('f json \<Rightarrow> string) \<Rightarrow> (string \<times> 'f json) list \<Rightarrow> string list \<Rightarrow> summary \<Rightarrow> summary" where
  "coerce_loop repr d [] out = out"
| "coerce_loop repr d (k # ks) out =
     coerce_loop repr d ks (dict_set out k (coerce_value repr k (dict_get d k)))"

definition coerce_summary :: "('f json \<Rightarrow> string) \<Rightarrow> 'f json \<Rightarrow> summary" where
  "coerce_summary repr d =
     (case d of
        JDict kvs \<Rightarrow> coerce_loop repr kvs SUMMARY_FIELDS all_none
      | _ \<Rightarrow> all_none)"

text \<open>\<open>_is_effectively_empty\<close>: no value other than \<open>None\<close>, \<open>[]\<close> and the empty string.\<close>

definition non_null :: "sval \<Rightarrow> bool" where
  "non_null v = (case v of SNone \<Rightarrow> False | SStr s \<Rightarrow> s \<noteq> [] | SList xs \<Rightarrow> xs \<noteq> [])"

definition is_effectively_empty :: "summary \<Rightarrow> bool" where
  "is_effectively_empty d =
     (if d = [] then True else length (filter (\<lambda>(k, v). non_null v) d) = 0)"

text \<open>
  \<open>str.splitlines\<close> on code points below 256: a line ends at LF, VT, FF, CR (with a
  following LF), FS, GS, RS or NEL; no empty last line.
\<close>

definition is_linebreak :: "char \<Rightarrow> bool" where
  "is_linebreak c = (let k = of_char c :: nat in
     (10 \<le> k \<and> k \<le> 13) \<or> (28 \<le> k \<and> k \<le> 30) \<or> k = 133)"

fun splitlines_from :: "string \<Rightarrow> string \<Rightarrow> string list" where
  "splitlines_from cur [] = (if cur = [] then [] else [cur])"
| "splitlines_from cur [c] = (if is_linebreak c then [cur] else [cur @ [c]])"
| "splitlines_from cur (c # d # cs) =
     (if of_char c = (13 :: nat) \<and> of_char d = (10 :: nat) then cur # splitlines_from [] cs
      else if is_linebreak c then cur # splitlines_from [] (d # cs)
      else splitlines_from (cur @ [c]) (d # cs))"

definition splitlines :: "string \<Rightarrow> string list" where
  "splitlines s = splitlines_from [] s"

text \<open>\<open>s.strip(chars)\<close>.\<close>

definition strip_chars :: "char list \<Rightarrow> string \<Rightarrow> string" where
  "strip_chars cs s = rev (dropWhile (\<lambda>c. c \<in> set cs) (rev (dropWhile (\<lambda>c. c \<in> set cs) s)))"

text \<open>The first header-like line: the \<open>tender_name\<close> loop of \<open>extract_summary_rules\<close>.\<close>

fun first_header :: "'f lib \<Rightarrow> string list \<Rightarrow> string option" where
  "first_header l [] = None"
| "first_header l (line # lines) =
     (if length (strip line) \<ge> 6 \<and> length (strip line) \<le> 140 \<and> \<not> search_page_toc l (strip line)
      then Some (strip line) else first_header l lines)"

definition key_terms :: "string list" where
  "key_terms = [''eligibility'', ''turnover'', ''experience'', ''bid security'', ''emd'',
     ''bank guarantee'', ''penalty'', ''liquidated damages'']"

text \<open>
  The \<open>compliance_notes\<close> loop: bullet characters stripped (space, dash, star, TAB; the
  bullet sign lies beyond the code points modelled), left once six notes are kept.
\<close>

fun notes_loop :: "'f lib \<Rightarrow> string list \<Rightarrow> string list \<Rightarrow> string list" where
  "notes_loop l [] notes = notes"
| "notes_loop l (line # lines) notes =
     (let s = strip_chars [CHR '' '', CHR ''-'', CHR ''*'', CHR 0x09] line in
      if 6 \<le> length s \<and> length s \<le> 160 \<and> list_ex (\<lambda>t. search_term l t s) key_terms then
        (if length (notes @ [s]) \<ge> 6 then notes @ [s] else notes_loop l lines (notes @ [s]))
      else notes_loop l lines notes)"

definition opt_sval :: "string option \<Rightarrow> sval" where
  "opt_sval s = (case s of None \<Rightarrow> SNone | Some x \<Rightarrow> SStr x)"

definition extract_summary_rules :: "'f lib \<Rightarrow> chunk list \<Rightarrow> summary \<times> chunk list" where
  "extract_summary_rules l chunks =
     (let head_chunks = py_slice_to chunks 5;
          txt = join NL (map chunk_text head_chunks);
          tender_name = first_header l (splitlines txt);
          issuer = (case search_issuer l txt of None \<Rightarrow> None | Some g0 \<Rightarrow> Some (strip g0));
          emd_amount = (case search_emd l txt of
                          None \<Rightarrow> None
                        | Some (cur, val) \<Rightarrow> Some (strip (or_empty cur @ '' '' @ val)));
          duration = search_duration l txt;
          location = (case search_location l txt of None \<Rightarrow> None | Some g1 \<Rightarrow> Some (strip g1));
          scope_of_work = (case search_scope l txt of
                             None \<Rightarrow> None
                           | Some g1 \<Rightarrow>
                               Some (py_slice_to
                                 (strip (join '' '' (py_slice_to (split_sentences l (strip g1)) 2)))
                                 300));
          compliance_notes = notes_loop l (splitlines txt) []
      in ([(''tender_name'', opt_sval tender_name),
           (''issuer'', opt_sval issuer),
           (''emd_amount'', opt_sval emd_amount),
           (''location'', opt_sval location),
           (''duration'', opt_sval duration),
           (''scope_of_work'', opt_sval scope_of_work),
           (''compliance_notes'', SList compliance_notes)],
          head_chunks))"

text \<open>
  \<open>extract_summary_groq\<close>. \<open>create\<close> is the completion service; every \<open>json.loads\<close>
  failure is caught and gives the all-\<open>None\<close> dict.
\<close>

definition parse_or_none :: "'f lib \<Rightarrow> string \<Rightarrow> summary" where
  "parse_or_none l s =
     (case json_loads l s of None \<Rightarrow> all_none | Some d \<Rightarrow> coerce_summary (py_repr l) d)"

definition extract_summary_groq ::
  "'f lib \<Rightarrow> (request \<Rightarrow> string option outcome) \<Rightarrow> chunk list \<Rightarrow> string \<Rightarrow> string
     \<Rightarrow> summary \<times> chunk list" where
  "extract_summary_groq l create chunks api_key model =
     (if chunks = [] then (all_none, [])
      else
        let prompt = build_summary_prompt chunks 8000;
            raw = complete create api_key model prompt 0 600;
            summary = (case extract_json_block l raw of
                         None \<Rightarrow> parse_or_none l raw
                       | Some json_str \<Rightarrow>
                           (if json_str = [] then parse_or_none l raw
                            else parse_or_none l json_str))
        in if is_effectively_empty summary then extract_summary_rules l chunks
           else (summary, py_slice_to chunks 5))"


section \<open>Retriever (services/retriever.py)\<close>

text \<open>\<open>xs[i]\<close> with Python's negative indices; out of range raises.\<close>

definition py_index :: "'a list \<Rightarrow> int \<Rightarrow> error + 'a" where
  "py_index xs i =
     (if 0 \<le> i \<and> i < int (length xs) then Inr (xs ! nat i)
      else if i < 0 \<and> - int (length xs) \<le> i then Inr (xs ! nat (int (length xs) + i))
      else Inl IndexError)"

record 'a retriever =
  self_chunks :: "chunk list"
  self_emb_provider :: string
  self_emb_model :: string
  self_openai_api_key :: "string option"
  self_embeddings :: "'a list list"

text \<open>
  \<open>sorted(chunks, key=lambda c: len(c.text), reverse=True)\<close>: a stable sort in descending
  order, chunks of equal length staying in their original order.
\<close>

definition ranked_by_length :: "chunk list \<Rightarrow> chunk list" where
  "ranked_by_length cs = rev (sort_key (\<lambda>c. length (chunk_text c)) (rev cs))"

text \<open>The \<open>except\<close> branch of \<open>SimpleRetriever.query\<close>.\<close>

definition length_fallback :: "chunk list \<Rightarrow> int \<Rightarrow> (chunk \<times> real) list" where
  "length_fallback cs top_k = map (\<lambda>c. (c, 1)) (py_slice_to (ranked_by_length cs) top_k)"

text \<open>The loop over \<open>zip(idxs[0], scores[0])\<close>; position -1 is skipped.\<close>

fun hits_loop :: "chunk list \<Rightarrow> (int \<times> real) list \<Rightarrow> (chunk \<times> real) list
    \<Rightarrow> error + (chunk \<times> real) list" where
  "hits_loop cs [] out = Inr out"
| "hits_loop cs ((i, score) # rest) out =
     (if i = - 1 then hits_loop cs rest out
      else (case py_index cs i of
              Inl e \<Rightarrow> Inl e
            | Inr c \<Rightarrow> hits_loop cs rest (out @ [(c, score)])))"

text \<open>
  \<open>SimpleRetriever.query\<close>. \<open>search\<close> stands for the similarity capability (import of the
  index library, embedding of the query, index build and search): it raises, or returns
  the positions paired with their scores. Every exception inside the \<open>try\<close> leads to the
  length ranking.
\<close>

definition query ::
  "('a retriever \<Rightarrow> string \<Rightarrow> int \<Rightarrow> (int \<times> real) list outcome)
     \<Rightarrow> 'a retriever \<Rightarrow> string \<Rightarrow> int \<Rightarrow> (chunk \<times> real) list" where
  "query search r q top_k =
     (case search r q top_k of
        Raises \<Rightarrow> length_fallback (self_chunks r) top_k
      | Returns hits \<Rightarrow>
          (case hits_loop (self_chunks r) hits [] of
             Inl e \<Rightarrow> length_fallback (self_chunks r) top_k
           | Inr out \<Rightarrow> out))"

section \<open>Index store (services/index\_store.py)\<close>

text \<open>\<open>_safe_id\<close>: slash and backslash become underscores.\<close>

definition safe_id :: "string \<Rightarrow> string" where
  "safe_id tender_id =
     map (\<lambda>c. if c = CHR ''/'' \<or> c = CHR 0x5C then CHR ''_'' else c) tender_id"

text \<open>
  The flat inner-product index: its dimension and the vectors added to it. A stored file
  is kept as what it decodes to: the chunk list of \<open>chunks.json\<close>, the index of
  \<open>index.faiss\<close>, or content that is neither. The store maps a path to its file;
  directories and pathlib's normalisation are left out.
\<close>

record 'a index =
  dim :: nat
  vectors :: "'a list list"

datatype 'a stored = ChunkList "chunk list" | IndexFile "'a index" | Unreadable

type_synonym 'a store = "string \<rightharpoonup> 'a stored"

definition base_path :: "string \<Rightarrow> string \<Rightarrow> string" where
  "base_path index_root tender_id = index_root @ ''/'' @ safe_id tender_id"

definition chunks_path :: "string \<Rightarrow> string \<Rightarrow> string" where
  "chunks_path index_root tender_id = base_path index_root tender_id @ ''/chunks.json''"

definition index_path :: "string \<Rightarrow> string \<Rightarrow> string" where
  "index_path index_root tender_id = base_path index_root tender_id @ ''/index.faiss''"

text \<open>
  \<open>np.array(embeddings, dtype="float32")\<close> followed by \<open>vecs.shape[1]\<close>: rows of unequal
  length raise ValueError, an empty list has no second axis (IndexError).
\<close>

definition matrix_dim :: "'a list list \<Rightarrow> error + nat" where
  "matrix_dim embeddings =
     (case embeddings of
        [] \<Rightarrow> Inl IndexError
      | row # rows \<Rightarrow>
          (if list_all (\<lambda>r. length r = length row) rows then Inr (length row)
           else Inl ValueError))"

text \<open>
  \<open>save_index\<close>: the store after the call and the exception raised, if any. \<open>faiss\<close> tells
  whether the index library can be imported; \<open>normalize_L2\<close> is its normalisation of one
  row. The chunk list is written before the index is built.
\<close>

definition save_index ::
  "bool \<Rightarrow> ('a list \<Rightarrow> 'a list) \<Rightarrow> 'a store \<Rightarrow> string \<Rightarrow> string \<Rightarrow> chunk list \<Rightarrow> 'a list list
     \<Rightarrow> 'a store \<times> error option" where
  "save_index faiss normalize_L2 fs index_root tender_id chunks embeddings =
     (if \<not> faiss then (fs, Some ImportError)
      else
        let fs1 = fs(chunks_path index_root tender_id \<mapsto> ChunkList chunks) in
        case matrix_dim embeddings of
          Inl e \<Rightarrow> (fs1, Some e)
        | Inr d \<Rightarrow>
            (fs1(index_path index_root tender_id \<mapsto>
                   IndexFile \<lparr>dim = d, vectors = map normalize_L2 embeddings\<rparr>),
             None))"

text \<open>
  \<open>load_index\<close>. A chunk-list file that does not decode as JSON raises ValueError; one
  that decodes to something other than chunk records (a KeyError or TypeError in the
  source) is not among the stored contents represented here.
\<close>

definition load_index ::
  "bool \<Rightarrow> 'a store \<Rightarrow> string \<Rightarrow> string \<Rightarrow> error + (chunk list \<times> 'a index)" where
  "load_index faiss fs index_root tender_id =
     (if \<not> faiss then Inl ImportError
      else if fs (chunks_path index_root tender_id) = None
              \<or> fs (index_path index_root tender_id) = None then Inl FileNotFoundError
      else
        case fs (chunks_path index_root tender_id) of
          Some (ChunkList chunks) \<Rightarrow>
            (case fs (index_path index_root tender_id) of
               Some (IndexFile index) \<Rightarrow> Inr (chunks, index)
             | _ \<Rightarrow> Inl RuntimeError)
        | _ \<Rightarrow> Inl ValueError)"

text \<open>
  The end of \<open>main\<close> in scripts/build\_kb\_index.py, from the collected chunks and the
  embeddings computed for them on: the two counts are compared, a mismatch raises
  SystemExit, and only then is \<open>save_index\<close> called. The ingest endpoint of app.py calls
  \<open>save_index\<close> on the chunks and embeddings directly.
\<close>

definition build_kb_index_save ::
  "bool \<Rightarrow> ('a list \<Rightarrow> 'a list) \<Rightarrow> 'a store \<Rightarrow> string \<Rightarrow> string \<Rightarrow> chunk list \<Rightarrow> 'a list list
     \<Rightarrow> 'a store \<times> error option" where
  "build_kb_index_save faiss normalize_L2 fs index_root kb_id all_chunks embeddings =
     (if length embeddings \<noteq> length all_chunks then (fs, Some SystemExit)
      else save_index faiss normalize_L2 fs index_root kb_id all_chunks embeddings)"

section \<open>Tree walk and span merging (adapters/docling.py)\<close>

text \<open>
  What \<open>_docling_to_json\<close> can observe of a parsed document: its \<open>to_json\<close> and
  \<open>model_dump\<close> methods (absent, raising or returning), the value of
  \<open>json.loads(json.dumps(doc, default=...))\<close> (\<open>None\<close> when that raises), and \<open>str(doc)\<close>.
\<close>

record 'f doc =
  to_json :: "'f json outcome option"
  model_dump :: "'f json outcome option"
  dumps_loads :: "'f json option"
  str_doc :: string

text \<open>\<open>_docling_to_json\<close>; Python's \<open>None\<close> is \<open>JNull\<close>.\<close>

definition via_to_json :: "'f lib \<Rightarrow> 'f doc \<Rightarrow> 'f json option" where
  "via_to_json l doc =
     (case to_json doc of
        Some (Returns (JStr s)) \<Rightarrow> json_loads l s
      | Some (Returns (JDict d)) \<Rightarrow> Some (JDict d)
      | _ \<Rightarrow> None)"

definition via_model_dump :: "'f doc \<Rightarrow> 'f json option" where
  "via_model_dump doc =
     (case model_dump doc of
        Some (Returns v) \<Rightarrow> Some v
      | _ \<Rightarrow> None)"

definition docling_to_json :: "'f lib \<Rightarrow> 'f doc \<Rightarrow> 'f json" where
  "docling_to_json l doc =
     (case via_to_json l doc of
        Some raw \<Rightarrow> raw
      | None \<Rightarrow>
          (case via_model_dump doc of
             Some raw \<Rightarrow> raw
           | None \<Rightarrow>
               (case dumps_loads doc of
                  Some raw \<Rightarrow> raw
                | None \<Rightarrow> JNull)))"

type_synonym span = "string \<times> int option \<times> string option"

text \<open>
  The first key of \<open>keys\<close> whose value is a string that is not blank, stripped: the title
  and the caption searches.
\<close>

fun first_text :: "(string \<times> 'f json) list \<Rightarrow> string list \<Rightarrow> string option" where
  "first_text obj [] = None"
| "first_text obj (k # ks) =
     (case map_of obj k of
        Some (JStr s) \<Rightarrow> (if strip s \<noteq> [] then Some (strip s) else first_text obj ks)
      | _ \<Rightarrow> first_text obj ks)"

text \<open>
  \<open>isinstance(v, int)\<close>: an integer, or a boolean (a subclass of \<open>int\<close>). A boolean
  page is kept here as its integer value 1 or 0, to which it is equal in Python; the
  source keeps the boolean object itself, which prints as \<open>True\<close> or \<open>False\<close>.
\<close>

definition as_int :: "'f json \<Rightarrow> int option" where
  "as_int v = (case v of JInt i \<Rightarrow> Some i | JBool b \<Rightarrow> Some (if b then 1 else 0) | _ \<Rightarrow> None)"

fun first_page :: "(string \<times> 'f json) list \<Rightarrow> string list \<Rightarrow> int option" where
  "first_page obj [] = None"
| "first_page obj (pk # pks) =
     (case map_of obj pk of
        Some v \<Rightarrow> (case as_int v of Some i \<Rightarrow> Some i | None \<Rightarrow> first_page obj pks)
      | None \<Rightarrow> first_page obj pks)"

definition section_path :: "string list \<Rightarrow> string option \<Rightarrow> string option" where
  "section_path section_stack dflt =
     (if section_stack = [] then dflt else Some (join '' > '' section_stack))"

definition text_span :: "(string \<times> 'f json) list \<Rightarrow> string list \<Rightarrow> span list" where
  "text_span obj section_stack =
     (case map_of obj ''text'' of
        Some (JStr s) \<Rightarrow>
          (if strip s \<noteq> [] then
             [(strip s, first_page obj [''page'', ''page_no'', ''page_index'', ''pageNumber''],
               section_path section_stack None)]
           else [])
      | _ \<Rightarrow> [])"

text \<open>\<open>c or ""\<close> is the empty string for every falsy cell.\<close>

definition falsy :: "'f lib \<Rightarrow> 'f json \<Rightarrow> bool" where
  "falsy l v =
     (case v of
        JNull \<Rightarrow> True
      | JBool b \<Rightarrow> \<not> b
      | JInt i \<Rightarrow> i = 0
      | JFloat f \<Rightarrow> float_is_zero l f
      | JStr s \<Rightarrow> s = []
      | JList xs \<Rightarrow> xs = []
      | JDict d \<Rightarrow> d = [])"

definition cell_str :: "'f lib \<Rightarrow> 'f json \<Rightarrow> string" where
  "cell_str l c = strip (if falsy l c then [] else py_str (py_repr l) c)"

text \<open>
  The rows of a table: only list rows are rendered. Iterating a value that is not
  iterable raises inside the \<open>try\<close> and nothing is yielded, as for a string or a dict,
  whose elements are not lists.
\<close>

fun table_lines :: "'f lib \<Rightarrow> 'f json list \<Rightarrow> string list" where
  "table_lines l [] = []"
| "table_lines l (r # rows) =
     (case r of
        JList cells \<Rightarrow> join '' | '' (map (cell_str l) cells) # table_lines l rows
      | _ \<Rightarrow> table_lines l rows)"

definition table_span :: "'f lib \<Rightarrow> (string \<times> 'f json) list \<Rightarrow> string list \<Rightarrow> span list" where
  "table_span l obj section_stack =
     (case dict_get obj ''type'' of
        JStr ty \<Rightarrow>
          (if ty = ''table'' \<and> dict_has obj ''cells'' then
             (case dict_get obj ''cells'' of
                JList rows \<Rightarrow>
                  (if table_lines l rows \<noteq> [] then
                     [(join NL (table_lines l rows), as_int (dict_get obj ''page''),
                       section_path section_stack (Some ''Table''))]
                   else [])
              | _ \<Rightarrow> [])
           else [])
      | _ \<Rightarrow> [])"

text \<open>
  The figure rule. The test \<open>obj.get("type") in {"figure", "image"}\<close> hashes the value
  and raises TypeError on a list or a dict; this is outside any \<open>try\<close>.
\<close>

definition figure_span ::
  "(string \<times> 'f json) list \<Rightarrow> string list \<Rightarrow> error + span list" where
  "figure_span obj section_stack =
     (case dict_get obj ''type'' of
        JList xs \<Rightarrow> Inl TypeError
      | JDict d \<Rightarrow> Inl TypeError
      | JStr ty \<Rightarrow>
          (if ty = ''figure'' \<or> ty = ''image'' then
             (case first_text obj [''caption'', ''alt'', ''title''] of
                Some cap \<Rightarrow>
                  Inr [(cap, as_int (dict_get obj ''page''),
                        section_path section_stack (Some ''Figure''))]
              | None \<Rightarrow> Inr [])
           else Inr [])
      | _ \<Rightarrow> Inr [])"

text \<open>
  \<open>_iter_text_nodes\<close>: the spans yielded, in order, and the section stack as the call
  leaves it (the stack is one list, pushed and popped in place).
\<close>

fun iter_text_nodes :: "'f lib \<Rightarrow> 'f json \<Rightarrow> string list \<Rightarrow> error + (span list \<times> string list)"
  and iter_values :: "'f lib \<Rightarrow> (string \<times> 'f json) list \<Rightarrow> string list
        \<Rightarrow> error + (span list \<times> string list)"
  and iter_list :: "'f lib \<Rightarrow> 'f json list \<Rightarrow> string list \<Rightarrow> error + (span list \<times> string list)"
  where
  "iter_text_nodes l v section_stack =
     (case v of
        JDict obj \<Rightarrow>
          (let title = first_text obj [''title'', ''heading'', ''name''];
               stack1 = (case title of Some t \<Rightarrow> section_stack @ [t] | None \<Rightarrow> section_stack)
           in case figure_span obj stack1 of
                Inl e \<Rightarrow> Inl e
              | Inr fig \<Rightarrow>
                  (case iter_values l obj stack1 of
                     Inl e \<Rightarrow> Inl e
                   | Inr (sub, stack2) \<Rightarrow>
                       Inr (text_span obj stack1 @ table_span l obj stack1 @ fig @ sub,
                            if title \<noteq> None \<and> stack2 \<noteq> [] then butlast stack2 else stack2)))
      | JList items \<Rightarrow> iter_list l items section_stack
      | _ \<Rightarrow> Inr ([], section_stack))"
| "iter_values l [] section_stack = Inr ([], section_stack)"
| "iter_values l ((k, v) # kvs) section_stack =
     (case iter_text_nodes l v section_stack of
        Inl e \<Rightarrow> Inl e
      | Inr (a, stack1) \<Rightarrow>
          (case iter_values l kvs stack1 of
             Inl e \<Rightarrow> Inl e
           | Inr (b, stack2) \<Rightarrow> Inr (a @ b, stack2)))"
| "iter_list l [] section_stack = Inr ([], section_stack)"
| "iter_list l (it # items) section_stack =
     (case iter_text_nodes l it section_stack of
        Inl e \<Rightarrow> Inl e
      | Inr (a, stack1) \<Rightarrow>
          (case iter_list l items stack1 of
             Inl e \<Rightarrow> Inl e
           | Inr (b, stack2) \<Rightarrow> Inr (a @ b, stack2)))"

declare iter_text_nodes.simps [simp del]

text \<open>\<open>page or 1\<close>.\<close>

definition page_or_1 :: "int option \<Rightarrow> int" where
  "page_or_1 p = (case p of None \<Rightarrow> 1 | Some n \<Rightarrow> (if n = 0 then 1 else n))"

text \<open>
  The closure \<open>flush\<close> of \<open>docling_to_chunks\<close>, the chunk list and the buffer passed in and
  the chunk list returned.
\<close>

definition flush ::
  "chunk list \<Rightarrow> string list \<Rightarrow> nat \<Rightarrow> int option \<Rightarrow> string option \<Rightarrow> chunk list" where
  "flush chunks buf start_idx pg path =
     (if buf = [] then chunks
      else if strip (join (NL @ NL) buf) = [] then chunks
      else chunks @ [\<lparr>chunk_id = ''dl_'' @ str_nat start_idx @ ''_'' @ str_nat (length chunks),
                       page = page_or_1 pg,
                       chunk_text = strip (join (NL @ NL) buf),
                       section_hint = path\<rparr>])"

text \<open>
  The variables of the merge loop. The lists \<open>buf_pages\<close> and \<open>buf_paths\<close> of the source
  are written and never read; they are left out.
\<close>

record merge_state =
  m_chunks :: "chunk list"
  m_buf :: "string list"
  m_start :: nat
  m_cur_len :: nat
  m_current_path :: "string option"
  m_current_page :: "int option"

text \<open>\<open>joined[-overlap:]\<close> for \<open>overlap > 0\<close>.\<close>

definition tail_overlap :: "string \<Rightarrow> int \<Rightarrow> string" where
  "tail_overlap joined overlap = py_slice_from joined (- overlap)"

text \<open>One pass of the body of \<open>for i, (t, p, path) in enumerate(spans)\<close>.\<close>

definition on_empty_buf :: "nat \<Rightarrow> span \<Rightarrow> merge_state \<Rightarrow> merge_state" where
  "on_empty_buf i sp s =
     (case sp of (t, p, path) \<Rightarrow>
        if m_buf s = [] then s\<lparr>m_start := i, m_current_path := path, m_current_page := p\<rparr>
        else s)"

definition on_path_change :: "nat \<Rightarrow> span \<Rightarrow> merge_state \<Rightarrow> merge_state" where
  "on_path_change i sp s =
     (case sp of (t, p, path) \<Rightarrow>
        if path \<noteq> m_current_path s \<and> m_buf s \<noteq> [] then
          s\<lparr>m_chunks := flush (m_chunks s) (m_buf s) (m_start s) (m_current_page s)
                          (m_current_path s),
            m_buf := [], m_start := i, m_cur_len := 0,
            m_current_path := path, m_current_page := p\<rparr>
        else s)"

definition append_span :: "span \<Rightarrow> merge_state \<Rightarrow> merge_state" where
  "append_span sp s =
     (case sp of (t, p, path) \<Rightarrow>
        s\<lparr>m_buf := m_buf s @ [t], m_cur_len := m_cur_len s + length t\<rparr>)"

definition on_full :: "int \<Rightarrow> int \<Rightarrow> nat \<Rightarrow> span \<Rightarrow> merge_state \<Rightarrow> merge_state" where
  "on_full max_chars overlap i sp s =
     (case sp of (t, p, path) \<Rightarrow>
        if int (m_cur_len s) \<ge> max_chars then
          (if overlap > 0 \<and> m_buf s \<noteq> [] then
             s\<lparr>m_chunks := flush (m_chunks s) (m_buf s) (m_start s) (m_current_page s)
                             (m_current_path s),
               m_buf := [tail_overlap (join (NL @ NL) (m_buf s)) overlap],
               m_cur_len := length (tail_overlap (join (NL @ NL) (m_buf s)) overlap),
               m_start := i, m_current_path := path, m_current_page := p\<rparr>
           else
             s\<lparr>m_chunks := flush (m_chunks s) (m_buf s) (m_start s) (m_current_page s)
                             (m_current_path s),
               m_buf := [], m_cur_len := 0,
               m_start := i, m_current_path := path, m_current_page := p\<rparr>)
        else s)"

definition merge_step :: "int \<Rightarrow> int \<Rightarrow> nat \<Rightarrow> span \<Rightarrow> merge_state \<Rightarrow> merge_state" where
  "merge_step max_chars overlap i sp s =
     on_full max_chars overlap i sp (append_span sp (on_path_change i sp (on_empty_buf i sp s)))"

fun merge_loop :: "int \<Rightarrow> int \<Rightarrow> nat \<Rightarrow> span list \<Rightarrow> merge_state \<Rightarrow> merge_state" where
  "merge_loop max_chars overlap i [] s = s"
| "merge_loop max_chars overlap i (sp # spans) s =
     merge_loop max_chars overlap (Suc i) spans (merge_step max_chars overlap i sp s)"

definition initial_state :: merge_state where
  "initial_state = \<lparr>m_chunks = [], m_buf = [], m_start = 0, m_cur_len = 0,
                     m_current_path = None, m_current_page = None\<rparr>"

text \<open>The flush after the last span, and the whole merge: the loop, then that flush.\<close>

definition final_flush :: "merge_state \<Rightarrow> chunk list" where
  "final_flush s = flush (m_chunks s) (m_buf s) (m_start s) (m_current_page s) (m_current_path s)"

definition merge_spans :: "span list \<Rightarrow> int \<Rightarrow> int \<Rightarrow> chunk list" where
  "merge_spans spans max_chars overlap =
     final_flush (merge_loop max_chars overlap 0 spans initial_state)"

text \<open>\<open>docling_to_chunks\<close>; only spans with a non-empty text are collected.\<close>

definition docling_to_chunks :: "'f lib \<Rightarrow> 'f doc \<Rightarrow> int \<Rightarrow> int \<Rightarrow> error + chunk list" where
  "docling_to_chunks l doc max_chars overlap =
     (case docling_to_json l doc of
        JNull \<Rightarrow> Inr [\<lparr>chunk_id = ''dl_0'', page = 1, chunk_text = str_doc doc,
                        section_hint = None\<rparr>]
      | raw \<Rightarrow>
          (case iter_text_nodes l raw [] of
             Inl e \<Rightarrow> Inl e
           | Inr (yielded, section_stack) \<Rightarrow>
               Inr (merge_spans (filter (\<lambda>(t, p, path). t \<noteq> []) yielded) max_chars overlap)))"

section \<open>Predicates used to state the properties\<close>

definition is_digit :: "char \<Rightarrow> bool" where
  "is_digit c = (c \<in> set ''0123456789'')"

text \<open>
  The chunk at position \<open>k\<close> carries an id ending in \<open>k\<close>; every chunk text is non-empty
  and unchanged by trimming.
\<close>

definition dl_ids :: "chunk list \<Rightarrow> bool" where
  "dl_ids cs = (\<forall>k < length cs. \<exists>a. chunk_id (cs ! k) = ''dl_'' @ str_nat a @ ''_'' @ str_nat k)"

definition trimmed :: "chunk list \<Rightarrow> bool" where
  "trimmed cs = (\<forall>c \<in> set cs. chunk_text c \<noteq> [] \<and> strip (chunk_text c) = chunk_text c)"

text \<open>
  The bookkeeping of the merge loop within one section, after \<open>consumed\<close> characters of
  span text, no span being longer than \<open>longest\<close>. A non-empty buffer belongs to the
  section and ends in a character that is not whitespace; \<open>cur_len\<close> is the length of the
  buffered texts and stays below \<open>max_chars\<close>; after the first chunk it counts the carried
  tail. Every emitted chunk accounts for at least \<open>max_chars - overlap\<close> and at most
  \<open>max_chars - overlap + longest - 1\<close> consumed characters beyond those still counted in
  \<open>cur_len\<close>.
\<close>

definition section_inv :: "int \<Rightarrow> int \<Rightarrow> nat \<Rightarrow> string option \<Rightarrow> nat \<Rightarrow> merge_state \<Rightarrow> bool" where
  "section_inv max_chars overlap longest path consumed s =
     ((m_buf s \<noteq> [] \<longrightarrow>
         m_current_path s = path \<and> last (m_buf s) \<noteq> [] \<and> \<not> is_space (last (last (m_buf s)))) \<and>
      m_cur_len s = sum_list (map length (m_buf s)) \<and>
      int (m_cur_len s) < max_chars \<and>
      (m_chunks s \<noteq> [] \<longrightarrow> max overlap 0 \<le> int (m_cur_len s)) \<and>
      (0 < overlap \<and> m_chunks s \<noteq> [] \<longrightarrow> m_buf s \<noteq> []) \<and>
      int (length (m_chunks s)) * (max_chars - max overlap 0) + int (m_cur_len s) \<le> int consumed \<and>
      int consumed
        \<le> int (length (m_chunks s)) * (max_chars - max overlap 0 + int longest - 1)
            + int (m_cur_len s))"

section \<open>Printed numbers are told apart\<close>

lemma digit_char_is_digit: "is_digit (digit_char d)"
  by (simp add: digit_char_def is_digit_def)

lemma digit_char_inj: "a < 10 \<Longrightarrow> b < 10 \<Longrightarrow> digit_char a = digit_char b \<Longrightarrow> a = b"
  unfolding digit_char_def by (simp split: if_splits; arith)

lemma str_nat_digits: "\<forall>c \<in> set (str_nat n). is_digit c"
proof (induction n rule: str_nat.induct)
  case (1 n)
  show ?case
  proof (cases "n < 10")
    case True
    then show ?thesis by (subst str_nat.simps) (simp add: digit_char_is_digit)
  next
    case False
    with 1 show ?thesis by (subst str_nat.simps) (simp add: digit_char_is_digit)
  qed
qed

lemma str_nat_nonempty: "str_nat n \<noteq> []"
  by (subst str_nat.simps) simp

lemma str_nat_inj: "str_nat a = str_nat b \<Longrightarrow> a = b"
proof (induction a arbitrary: b rule: str_nat.induct)
  case (1 n)
  show ?case
  proof (cases "n < 10")
    case True
    show ?thesis
    proof (cases "b < 10")
      case b: True
      from 1(2) True b have "digit_char n = digit_char b"
        by (simp add: str_nat.simps[of n] str_nat.simps[of b])
      from digit_char_inj[OF True b this] show ?thesis .
    next
      case b: False
      from 1(2) True b have "[digit_char n] = str_nat (b div 10) @ [digit_char (b mod 10)]"
        by (simp add: str_nat.simps[of n] str_nat.simps[of b])
      then have "str_nat (b div 10) = []" by simp
      with str_nat_nonempty show ?thesis by blast
    qed
  next
    case False
    show ?thesis
    proof (cases "b < 10")
      case b: True
      from 1(2) False b have "str_nat (n div 10) @ [digit_char (n mod 10)] = [digit_char b]"
        by (simp add: str_nat.simps[of n] str_nat.simps[of b])
      then have "str_nat (n div 10) = []" by simp
      with str_nat_nonempty show ?thesis by blast
    next
      case b: False
      from 1(2) False b have e: "str_nat (n div 10) @ [digit_char (n mod 10)]
          = str_nat (b div 10) @ [digit_char (b mod 10)]"
        by (simp add: str_nat.simps[of n] str_nat.simps[of b])
      then have "str_nat (n div 10) = str_nat (b div 10)" by simp
      from 1(1)[OF False this] have d: "n div 10 = b div 10" .
      from e have "digit_char (n mod 10) = digit_char (b mod 10)" by simp
      then have m: "n mod 10 = b mod 10" by (intro digit_char_inj) simp_all
      from d m show ?thesis by (metis div_mult_mod_eq)
    qed
  qed
qed

lemma str_int_inj: "str_int a = str_int b \<Longrightarrow> a = b"
proof -
  assume e: "str_int a = str_int b"
  have nd: "\<not> is_digit (CHR ''-'')" by (simp add: is_digit_def)
  have hd: "is_digit (hd (str_nat n))" for n
    using str_nat_digits[of n] str_nat_nonempty[of n] by (cases "str_nat n") auto
  show ?thesis
  proof (cases "a < 0")
    case True
    show ?thesis
    proof (cases "b < 0")
      case b: True
      with True e have "str_nat (nat (- a)) = str_nat (nat (- b))" by (simp add: str_int_def)
      from str_nat_inj[OF this] True b show ?thesis by simp
    next
      case b: False
      with True e have "CHR ''-'' # str_nat (nat (- a)) = str_nat (nat b)" by (simp add: str_int_def)
      then have "hd (str_nat (nat b)) = CHR ''-''" by (metis list.sel(1))
      with hd[of "nat b"] nd show ?thesis by simp
    qed
  next
    case False
    show ?thesis
    proof (cases "b < 0")
      case b: True
      with False e have "str_nat (nat a) = CHR ''-'' # str_nat (nat (- b))" by (simp add: str_int_def)
      then have "hd (str_nat (nat a)) = CHR ''-''" by (metis list.sel(1))
      with hd[of "nat a"] nd show ?thesis by simp
    next
      case b: False
      with False e have "str_nat (nat a) = str_nat (nat b)" by (simp add: str_int_def)
      from str_nat_inj[OF this] False b show ?thesis by simp
    qed
  qed
qed

lemma str_nat_no_underscore: "CHR ''_'' \<notin> set (str_nat n)"
  using str_nat_digits[of n] by (auto simp: is_digit_def)

lemma str_int_no_underscore: "CHR ''_'' \<notin> set (str_int i)"
  using str_nat_no_underscore by (simp add: str_int_def)

text \<open>Two texts split at an underscore agree part by part when the first parts hold none.\<close>

lemma split_at_underscore:
  assumes "a @ CHR ''_'' # b = a' @ CHR ''_'' # b'"
    and "CHR ''_'' \<notin> set a" and "CHR ''_'' \<notin> set a'"
  shows "a = a' \<and> b = b'"
proof -
  have tw: "CHR ''_'' \<notin> set x \<Longrightarrow> takeWhile (\<lambda>c. c \<noteq> CHR ''_'') (x @ CHR ''_'' # y) = x"
    for x y by (induction x) auto
  have "takeWhile (\<lambda>c. c \<noteq> CHR ''_'') (a @ CHR ''_'' # b) = a"
    using assms(2) by (rule tw)
  moreover have "takeWhile (\<lambda>c. c \<noteq> CHR ''_'') (a' @ CHR ''_'' # b') = a'"
    using assms(3) by (rule tw)
  ultimately have "a = a'" using assms(1) by simp
  with assms(1) show ?thesis by simp
qed

text \<open>And at the last underscore, when the last parts hold none.\<close>

lemma split_at_last_underscore:
  assumes "a @ CHR ''_'' # b = a' @ CHR ''_'' # b'"
    and "CHR ''_'' \<notin> set b" and "CHR ''_'' \<notin> set b'"
  shows "a = a' \<and> b = b'"
proof -
  from assms(1) have "rev b @ CHR ''_'' # rev a = rev b' @ CHR ''_'' # rev a'"
    by (metis rev.simps(2) rev_append append_assoc append_Cons append_Nil)
  from split_at_underscore[OF this] assms(2,3) show ?thesis by simp
qed

section \<open>Trimming\<close>

lemma lstrip_hd: "lstrip s \<noteq> [] \<Longrightarrow> \<not> is_space (hd (lstrip s))"
  unfolding lstrip_def by (rule hd_dropWhile)

lemma rstrip_last: "rstrip s \<noteq> [] \<Longrightarrow> \<not> is_space (last (rstrip s))"
  unfolding rstrip_def using hd_dropWhile[of is_space "rev s"] by (simp add: last_rev)

lemma lstrip_id: "s = [] \<or> \<not> is_space (hd s) \<Longrightarrow> lstrip s = s"
  unfolding lstrip_def by (cases s) auto

lemma rstrip_id: "s = [] \<or> \<not> is_space (last s) \<Longrightarrow> rstrip s = s"
  unfolding rstrip_def by (cases s rule: rev_cases) auto

lemma rstrip_Cons: "\<not> is_space c \<Longrightarrow> rstrip (c # r) = c # rstrip r"
  by (simp add: rstrip_def dropWhile_append3 dropWhile_append2 split: if_splits)

lemma rstrip_keeps_hd:
  assumes "s \<noteq> []" "\<not> is_space (hd s)"
  shows "rstrip s \<noteq> [] \<and> hd (rstrip s) = hd s"
  using assms by (cases s) (simp_all add: rstrip_Cons)

lemma strip_hd: "strip s \<noteq> [] \<Longrightarrow> \<not> is_space (hd (strip s))"
proof -
  assume a: "strip s \<noteq> []"
  then have l: "lstrip s \<noteq> []" by (auto simp: strip_def rstrip_def)
  from rstrip_keeps_hd[OF l lstrip_hd[OF l]] show ?thesis
    using lstrip_hd[OF l] by (simp add: strip_def)
qed

lemma strip_last: "strip s \<noteq> [] \<Longrightarrow> \<not> is_space (last (strip s))"
  unfolding strip_def by (rule rstrip_last)

lemma strip_id: "s \<noteq> [] \<Longrightarrow> \<not> is_space (hd s) \<Longrightarrow> \<not> is_space (last s) \<Longrightarrow> strip s = s"
  by (simp add: strip_def lstrip_id rstrip_id)

lemma strip_idem: "strip (strip s) = strip s"
proof (cases "strip s = []")
  case True
  have "strip [] = []" by (simp add: strip_def lstrip_def rstrip_def)
  with True show ?thesis by simp
next
  case False
  from strip_id[OF False strip_hd[OF False] strip_last[OF False]] show ?thesis .
qed

lemma strip_blank: "strip s = [] \<longleftrightarrow> (\<forall>c \<in> set s. is_space c)"
proof
  assume "strip s = []"
  then have "lstrip s = []"
    by (metis rstrip_keeps_hd lstrip_hd strip_def)
  then show "\<forall>c \<in> set s. is_space c" by (simp add: lstrip_def dropWhile_eq_Nil_conv)
next
  assume "\<forall>c \<in> set s. is_space c"
  then have "lstrip s = []" by (simp add: lstrip_def dropWhile_eq_Nil_conv)
  then show "strip s = []" by (simp add: strip_def rstrip_def)
qed

section \<open>Chunks of the tree walk\<close>

lemma flush_cases:
  "flush cs buf a pg path = cs \<or>
   (buf \<noteq> [] \<and> strip (join (NL @ NL) buf) \<noteq> [] \<and>
    flush cs buf a pg path = cs @ [\<lparr>chunk_id = ''dl_'' @ str_nat a @ ''_'' @ str_nat (length cs),
         page = page_or_1 pg, chunk_text = strip (join (NL @ NL) buf), section_hint = path\<rparr>])"
  by (simp add: flush_def)

lemma dl_ids_flush: "dl_ids cs \<Longrightarrow> dl_ids (flush cs buf a pg path)"
proof -
  assume d: "dl_ids cs"
  from flush_cases[of cs buf a pg path] show ?thesis
  proof
    assume "flush cs buf a pg path = cs"
    with d show ?thesis by simp
  next
    assume "buf \<noteq> [] \<and> strip (join (NL @ NL) buf) \<noteq> [] \<and>
      flush cs buf a pg path = cs @ [\<lparr>chunk_id = ''dl_'' @ str_nat a @ ''_'' @ str_nat (length cs),
         page = page_or_1 pg, chunk_text = strip (join (NL @ NL) buf), section_hint = path\<rparr>]"
    then have f: "flush cs buf a pg path
        = cs @ [\<lparr>chunk_id = ''dl_'' @ str_nat a @ ''_'' @ str_nat (length cs),
         page = page_or_1 pg, chunk_text = strip (join (NL @ NL) buf), section_hint = path\<rparr>]"
      by simp
    show ?thesis
      unfolding dl_ids_def f
    proof (intro allI impI)
      fix k assume "k < length (cs @ [\<lparr>chunk_id = ''dl_'' @ str_nat a @ ''_'' @ str_nat (length cs),
         page = page_or_1 pg, chunk_text = strip (join (NL @ NL) buf), section_hint = path\<rparr>])"
      then have "k < length cs \<or> k = length cs" by auto
      then show "\<exists>aa. chunk_id ((cs @ [\<lparr>chunk_id = ''dl_'' @ str_nat a @ ''_'' @ str_nat (length cs),
         page = page_or_1 pg, chunk_text = strip (join (NL @ NL) buf), section_hint = path\<rparr>]) ! k)
           = ''dl_'' @ str_nat aa @ ''_'' @ str_nat k"
      proof
        assume "k < length cs"
        with d show ?thesis by (simp add: dl_ids_def nth_append)
      next
        assume "k = length cs"
        then show ?thesis by (intro exI[of _ a]) simp
      qed
    qed
  qed
qed

lemma trimmed_flush: "trimmed cs \<Longrightarrow> trimmed (flush cs buf a pg path)"
  using flush_cases[of cs buf a pg path]
  by (auto simp: trimmed_def strip_idem)

lemma dl_ids_distinct:
  assumes "dl_ids cs"
  shows "distinct (map chunk_id cs)"
proof -
  { fix j k assume jk: "j < length cs" "k < length cs" "chunk_id (cs ! j) = chunk_id (cs ! k)"
    from assms jk(1) obtain a where a: "chunk_id (cs ! j) = ''dl_'' @ str_nat a @ ''_'' @ str_nat j"
      by (auto simp: dl_ids_def)
    from assms jk(2) obtain b where b: "chunk_id (cs ! k) = ''dl_'' @ str_nat b @ ''_'' @ str_nat k"
      by (auto simp: dl_ids_def)
    from a b jk(3) have "(''dl_'' @ str_nat a) @ CHR ''_'' # str_nat j
        = (''dl_'' @ str_nat b) @ CHR ''_'' # str_nat k" by simp
    from split_at_last_underscore[OF this str_nat_no_underscore str_nat_no_underscore]
    have "str_nat j = str_nat k" by simp
    then have "j = k" by (rule str_nat_inj) }
  then show ?thesis by (auto simp: distinct_conv_nth)
qed


text \<open>
  A property of the chunk list that every flush keeps, for the pages the loop can hold,
  is kept by a pass of the loop, by the loop and by the final flush.
\<close>

lemma merge_step_inv:
  assumes fl: "\<And>cs buf a pg path. Q cs \<Longrightarrow> A pg \<Longrightarrow> Q (flush cs buf a pg path)"
    and "Q (m_chunks s)" "A (m_current_page s)" "A (fst (snd sp))"
  shows "Q (m_chunks (merge_step max_chars overlap i sp s)) \<and>
         A (m_current_page (merge_step max_chars overlap i sp s))"
proof -
  obtain t p path where sp: "sp = (t, p, path)" by (cases sp)
  let ?s1 = "on_empty_buf i sp s"
  have s1: "Q (m_chunks ?s1) \<and> A (m_current_page ?s1)"
    using assms(2-4) sp by (simp add: on_empty_buf_def)
  let ?s2 = "on_path_change i sp ?s1"
  have s2: "Q (m_chunks ?s2) \<and> A (m_current_page ?s2)"
    using s1 assms(4) sp fl by (simp add: on_path_change_def)
  let ?s3 = "append_span sp ?s2"
  have s3: "Q (m_chunks ?s3) \<and> A (m_current_page ?s3)"
    using s2 sp by (simp add: append_span_def)
  show ?thesis
    unfolding merge_step_def using s3 assms(4) sp fl by (simp add: on_full_def)
qed

lemma merge_loop_inv:
  assumes fl: "\<And>cs buf a pg path. Q cs \<Longrightarrow> A pg \<Longrightarrow> Q (flush cs buf a pg path)"
    and "Q (m_chunks s)" "A (m_current_page s)" "\<forall>sp \<in> set spans. A (fst (snd sp))"
  shows "Q (m_chunks (merge_loop max_chars overlap i spans s)) \<and>
         A (m_current_page (merge_loop max_chars overlap i spans s))"
  using assms(2-4)
proof (induction spans arbitrary: i s)
  case Nil
  then show ?case by simp
next
  case (Cons sp spans)
  from merge_step_inv[of Q A, OF fl Cons.prems(1,2)] Cons.prems(3)
  have "Q (m_chunks (merge_step max_chars overlap i sp s)) \<and>
         A (m_current_page (merge_step max_chars overlap i sp s))" by simp
  with Cons.IH[of "merge_step max_chars overlap i sp s" "Suc i"] Cons.prems(3)
  show ?case by simp
qed

lemma merge_spans_inv:
  assumes fl: "\<And>cs buf a pg path. Q cs \<Longrightarrow> A pg \<Longrightarrow> Q (flush cs buf a pg path)"
    and "Q []" "A None" "\<forall>sp \<in> set spans. A (fst (snd sp))"
  shows "Q (merge_spans spans max_chars overlap)"
proof -
  have "Q (m_chunks (merge_loop max_chars overlap 0 spans initial_state)) \<and>
         A (m_current_page (merge_loop max_chars overlap 0 spans initial_state))"
    by (rule merge_loop_inv[of Q A, OF fl]) (simp_all add: initial_state_def assms)
  then show ?thesis by (simp add: merge_spans_def final_flush_def Let_def fl)
qed

lemma merge_spans_ids: "dl_ids (merge_spans spans max_chars overlap)"
proof (rule merge_spans_inv[of dl_ids "\<lambda>pg. True"])
  show "dl_ids []" by (simp add: dl_ids_def)
qed (simp_all add: dl_ids_flush)

lemma merge_spans_trimmed: "trimmed (merge_spans spans max_chars overlap)"
proof (rule merge_spans_inv[of trimmed "\<lambda>pg. True"])
  show "trimmed []" by (simp add: trimmed_def)
qed (simp_all add: trimmed_flush)

lemma merge_spans_pages:
  assumes "\<forall>sp \<in> set spans. \<forall>n. fst (snd sp) = Some n \<longrightarrow> 0 \<le> n"
  shows "\<forall>c \<in> set (merge_spans spans max_chars overlap). 1 \<le> page c"
proof (rule merge_spans_inv[of "\<lambda>cs :: chunk list. \<forall>c \<in> set cs. 1 \<le> page c"
      "\<lambda>pg. \<forall>n. pg = Some n \<longrightarrow> 0 \<le> n"])
  fix cs :: "chunk list" and buf a and pg :: "int option" and path
  assume "\<forall>c \<in> set cs. 1 \<le> page c" "\<forall>n. pg = Some n \<longrightarrow> 0 \<le> n"
  then show "\<forall>c \<in> set (flush cs buf a pg path). 1 \<le> page c"
    using flush_cases[of cs buf a pg path]
    by (auto simp: page_or_1_def split: option.splits)
qed (simp_all add: assms)

section \<open>Termination of the page-window fallback\<close>

lemma window_loop_terminates:
  assumes "0 \<le> overlap" "overlap < max_chars"
  shows "\<exists>cs. window_loop max_chars overlap page_num txt start chunks = Some cs"
  using assms
proof (induction "nat (int (length txt) - start)" arbitrary: start chunks rule: less_induct)
  case less
  show ?case
  proof (cases "start < int (length txt)")
    case False
    then show ?thesis by (subst window_loop.simps) simp
  next
    case True
    show ?thesis
    proof (cases "window_end txt max_chars start = int (length txt)")
      case e: True
      with True show ?thesis by (subst window_loop.simps) simp
    next
      case e: False
      let ?s = "next_start (window_end txt max_chars start) overlap"
      have "start < ?s" using True e less.prems
        by (auto simp: next_start_def window_end_def min_def split: if_splits)
      then have "nat (int (length txt) - ?s) < nat (int (length txt) - start)"
        using True by linarith
      from less.hyps[OF this less.prems] True e show ?thesis
        by (subst window_loop.simps) simp
    qed
  qed
qed

lemma pages_loop_terminates:
  assumes "0 \<le> overlap" "overlap < max_chars"
  shows "\<exists>cs. pages_loop max_chars overlap pages chunks = Some cs"
proof (induction pages arbitrary: chunks)
  case Nil
  then show ?case by simp
next
  case (Cons a pages)
  obtain p t where a: "a = (p, t)" by (cases a)
  from window_loop_terminates[OF assms] obtain cs where
    "window_loop max_chars overlap p t 0 chunks = Some cs" by blast
  with Cons a show ?case by simp
qed

text \<open>
  A window that starts at 0 on a non-empty text longer than \<open>max_chars\<close>, with
  \<open>overlap \<ge> max_chars\<close>, is followed by a window that starts at 0 again: the loop has no
  value.
\<close>

lemma window_loop_stuck_aux:
  assumes "window_loop mc ov pn t st cs = Some y"
  shows "\<not> (mc \<le> ov \<and> mc < int (length t) \<and> t \<noteq> [] \<and> st = 0)"
proof (rule window_loop.raw_induct
    [where P = "\<lambda>mc ov pn t st cs y. \<not> (mc \<le> ov \<and> mc < int (length t) \<and> t \<noteq> [] \<and> st = 0)",
      OF _ assms])
  fix wl :: "int \<Rightarrow> int \<Rightarrow> int \<Rightarrow> string \<Rightarrow> int \<Rightarrow> chunk list \<Rightarrow> chunk list option"
  fix max_chars overlap page_num :: int and tx :: string and start :: int
    and chunks y :: "chunk list"
  assume IH: "\<And>mc ov pn t st cs y. wl mc ov pn t st cs = Some y \<Longrightarrow>
      \<not> (mc \<le> ov \<and> mc < int (length t) \<and> t \<noteq> [] \<and> st = 0)"
  assume step: "(if start < int (length tx) then
        (if window_end tx max_chars start = int (length tx) then
           Some (chunks @ [window_chunk page_num tx start (window_end tx max_chars start)])
         else
           wl max_chars overlap page_num tx
             (next_start (window_end tx max_chars start) overlap)
             (chunks @ [window_chunk page_num tx start (window_end tx max_chars start)]))
      else Some chunks) = Some y"
  show "\<not> (max_chars \<le> overlap \<and> max_chars < int (length tx) \<and> tx \<noteq> [] \<and> start = 0)"
  proof
    assume a: "max_chars \<le> overlap \<and> max_chars < int (length tx) \<and> tx \<noteq> [] \<and> start = 0"
    then have s: "start < int (length tx)" by simp
    from a have e: "window_end tx max_chars start \<noteq> int (length tx)"
      by (simp add: window_end_def min_def)
    from a have n: "next_start (window_end tx max_chars start) overlap = 0"
      by (simp add: window_end_def next_start_def min_def)
    from step s e n have
      "wl max_chars overlap page_num tx 0
         (chunks @ [window_chunk page_num tx start (window_end tx max_chars start)]) = Some y"
      by simp
    from IH[OF this] a show False by simp
  qed
qed

lemma window_loop_stuck:
  assumes "max_chars \<le> overlap" "max_chars < int (length t)" "t \<noteq> []"
  shows "window_loop max_chars overlap page_num t 0 chunks = None"
proof (cases "window_loop max_chars overlap page_num t 0 chunks")
  case None
  then show ?thesis .
next
  case (Some y)
  from window_loop_stuck_aux[OF this] assms show ?thesis by simp
qed

lemma pages_loop_stuck:
  assumes "max_chars \<le> overlap" "max_chars < int (length txt)" "txt \<noteq> []"
  shows "pages_loop max_chars overlap (pre @ (p, txt) # post) chunks = None"
proof (induction pre arbitrary: chunks)
  case Nil
  then show ?case using window_loop_stuck[OF assms] by simp
next
  case (Cons a pre)
  then show ?case by (cases a) (simp split: option.splits)
qed

text \<open>
  C10. With \<open>0 \<le> overlap < max_chars\<close>, \<open>simple_chunk_pages\<close> returns on every page
  list, and each pass of the inner loop either reaches the end of the page or moves the
  window start strictly forward. The bound on \<open>overlap\<close> is needed: with
  \<open>overlap \<ge> max_chars\<close> and a non-empty page text longer than \<open>max_chars\<close>, the window
  after the one starting at 0 starts at 0 again and the function never returns.
\<close>

theorem simple_chunk_pages_termination:
  "(0 \<le> overlap \<and> overlap < max_chars \<longrightarrow>
      (\<exists>cs. simple_chunk_pages pages max_chars overlap = Some cs) \<and>
      (0 \<le> start \<and> start < int (length t) \<longrightarrow>
         window_end t max_chars start = int (length t) \<or>
         start < next_start (window_end t max_chars start) overlap)) \<and>
   (max_chars \<le> overlap \<and> max_chars < int (length t) \<and> t \<noteq> [] \<longrightarrow>
      next_start (window_end t max_chars 0) overlap = 0 \<and>
      window_end t max_chars 0 \<noteq> int (length t) \<and>
      simple_chunk_pages (pre @ (p, t) # post) max_chars overlap = None)"
proof (intro conjI impI)
  assume "0 \<le> overlap \<and> overlap < max_chars"
  then have "0 \<le> overlap" "overlap < max_chars" by simp_all
  from pages_loop_terminates[OF this]
  show "\<exists>cs. simple_chunk_pages pages max_chars overlap = Some cs"
    unfolding simple_chunk_pages_def .
next
  assume "0 \<le> overlap \<and> overlap < max_chars" "0 \<le> start \<and> start < int (length t)"
  then show "window_end t max_chars start = int (length t) \<or>
         start < next_start (window_end t max_chars start) overlap"
    unfolding next_start_def window_end_def min_def by (simp split: if_splits)
next
  assume a: "max_chars \<le> overlap \<and> max_chars < int (length t) \<and> t \<noteq> []"
  then show "next_start (window_end t max_chars 0) overlap = 0"
    by (simp add: next_start_def window_end_def min_def)
  from a show "window_end t max_chars 0 \<noteq> int (length t)"
    by (simp add: window_end_def min_def)
  from a have "max_chars \<le> overlap" "max_chars < int (length t)" "t \<noteq> []" by simp_all
  from pages_loop_stuck[OF this]
  show "simple_chunk_pages (pre @ (p, t) # post) max_chars overlap = None"
    unfolding simple_chunk_pages_def .
qed

theorem simple_chunk_pages_termination_witness:
  "(\<exists>cs. simple_chunk_pages [(1, ''abcde'')] 3 1 = Some cs) \<and>
   (window_end ''abcde'' 3 0 = 5 \<or> 0 < next_start (window_end ''abcde'' 3 0) 1) \<and>
   next_start (window_end ''abc'' 2 0) 2 = 0 \<and>
   simple_chunk_pages [(1, ''abc'')] 2 2 = None"
  using simple_chunk_pages_termination
    [of 1 3 "[(1, ''abcde'')]" 0 "''abcde''"]
    simple_chunk_pages_termination
    [of 2 2 "[]" 0 "''abc''" "[]" 1 "[]"]
  by simp

section \<open>Chunks of the page-window fallback\<close>

lemma window_chunk_text_nonempty:
  assumes "0 \<le> start" "start < int (length t)" "0 < max_chars"
  shows "chunk_text (window_chunk pn t start (window_end t max_chars start)) \<noteq> []"
  using assms
  by (auto simp: window_chunk_def window_end_def py_slice_def clamp_index_def min_def Let_def)

lemma window_loop_result:
  assumes "0 \<le> overlap" "overlap < max_chars" "0 \<le> start"
  shows "\<exists>starts. window_loop max_chars overlap pn t start cs
           = Some (cs @ map (\<lambda>s. window_chunk pn t s (window_end t max_chars s)) starts) \<and>
         sorted_wrt (<) starts \<and> (\<forall>s \<in> set starts. start \<le> s \<and> s < int (length t)) \<and>
         (start < int (length t) \<longrightarrow> starts \<noteq> [] \<and> hd starts = start)"
  using assms(3)
proof (induction "nat (int (length t) - start)" arbitrary: start cs rule: less_induct)
  case less
  let ?c = "window_chunk pn t start (window_end t max_chars start)"
  show ?case
  proof (cases "start < int (length t)")
    case False
    then have "window_loop max_chars overlap pn t start cs = Some cs"
      by (subst window_loop.simps) simp
    with False show ?thesis by (intro exI[of _ "[]"]) simp
  next
    case True
    show ?thesis
    proof (cases "window_end t max_chars start = int (length t)")
      case e: True
      with True have "window_loop max_chars overlap pn t start cs = Some (cs @ [?c])"
        by (subst window_loop.simps) simp
      with True less.prems show ?thesis by (intro exI[of _ "[start]"]) simp
    next
      case e: False
      let ?s = "next_start (window_end t max_chars start) overlap"
      have adv: "start < ?s" using True e less.prems assms(1,2)
        by (auto simp: next_start_def window_end_def min_def split: if_splits)
      then have m: "nat (int (length t) - ?s) < nat (int (length t) - start)"
        using True by linarith
      have s0: "0 \<le> ?s" using adv less.prems by linarith
      from less.hyps[OF m s0, of "cs @ [?c]"] obtain starts where
        st: "window_loop max_chars overlap pn t ?s (cs @ [?c])
           = Some ((cs @ [?c]) @ map (\<lambda>s. window_chunk pn t s (window_end t max_chars s)) starts)"
          "sorted_wrt (<) starts" "\<forall>s \<in> set starts. ?s \<le> s \<and> s < int (length t)"
        by blast
      have "window_loop max_chars overlap pn t start cs
          = window_loop max_chars overlap pn t ?s (cs @ [?c])"
        using True e by (subst window_loop.simps) simp
      with st(1) have r: "window_loop max_chars overlap pn t start cs
          = Some (cs @ map (\<lambda>s. window_chunk pn t s (window_end t max_chars s)) (start # starts))"
        by simp
      have "sorted_wrt (<) (start # starts)" using st(2,3) adv by auto
      moreover have "\<forall>s \<in> set (start # starts). start \<le> s \<and> s < int (length t)"
        using st(3) adv True by auto
      moreover have "start # starts \<noteq> [] \<and> hd (start # starts) = start" by simp
      ultimately show ?thesis using r by blast
    qed
  qed
qed

lemma page_id_inj:
  assumes "''p'' @ str_int a @ ''_'' @ str_int s = ''p'' @ str_int b @ ''_'' @ str_int s'"
  shows "a = b \<and> s = s'"
proof -
  from assms have "str_int a @ CHR ''_'' # str_int s = str_int b @ CHR ''_'' # str_int s'"
    by simp
  from split_at_underscore[OF this str_int_no_underscore str_int_no_underscore]
  show ?thesis using str_int_inj by blast
qed

text \<open>What holds of the chunks of the pages seen so far.\<close>

lemma pages_loop_result:
  assumes "0 \<le> overlap" "overlap < max_chars"
    and "\<forall>c \<in> set cs. chunk_text c \<noteq> [] \<and> page c \<in> seen \<and>
           (\<exists>s. chunk_id c = ''p'' @ str_int (page c) @ ''_'' @ str_int s)"
  shows "\<exists>cs'. pages_loop max_chars overlap pages cs = Some cs' \<and>
           (\<forall>c \<in> set cs'. chunk_text c \<noteq> [] \<and> page c \<in> seen \<union> fst ` set pages \<and>
              (\<exists>s. chunk_id c = ''p'' @ str_int (page c) @ ''_'' @ str_int s)) \<and>
           (distinct (map chunk_id cs) \<and> distinct (map fst pages) \<and> seen \<inter> fst ` set pages = {}
              \<longrightarrow> distinct (map chunk_id cs'))"
  using assms(3)
proof (induction pages arbitrary: cs seen)
  case Nil
  then show ?case by simp
next
  case (Cons a pages)
  obtain pn t where a: "a = (pn, t)" by (cases a)
  have mc: "0 < max_chars" using assms by simp
  from window_loop_result[OF assms(1,2), of 0 pn t cs] obtain starts where
    w: "window_loop max_chars overlap pn t 0 cs
           = Some (cs @ map (\<lambda>s. window_chunk pn t s (window_end t max_chars s)) starts)"
       "sorted_wrt (<) starts" "\<forall>s \<in> set starts. 0 \<le> s \<and> s < int (length t)"
    by auto
  let ?new = "map (\<lambda>s. window_chunk pn t s (window_end t max_chars s)) starts"
  have new: "\<forall>c \<in> set ?new. chunk_text c \<noteq> [] \<and> page c = pn \<and>
      (\<exists>s. chunk_id c = ''p'' @ str_int (page c) @ ''_'' @ str_int s)"
  proof
    fix c assume "c \<in> set ?new"
    then obtain s where s: "s \<in> set starts" "c = window_chunk pn t s (window_end t max_chars s)"
      by auto
    with w(3) window_chunk_text_nonempty[of s t max_chars pn] mc
    have "chunk_text c \<noteq> []" by simp
    moreover have "page c = pn" "chunk_id c = ''p'' @ str_int (page c) @ ''_'' @ str_int s"
      using s(2) by (simp_all add: window_chunk_def)
    ultimately show "chunk_text c \<noteq> [] \<and> page c = pn \<and>
      (\<exists>s. chunk_id c = ''p'' @ str_int (page c) @ ''_'' @ str_int s)" by blast
  qed
  have inv: "\<forall>c \<in> set (cs @ ?new). chunk_text c \<noteq> [] \<and> page c \<in> insert pn seen \<and>
           (\<exists>s. chunk_id c = ''p'' @ str_int (page c) @ ''_'' @ str_int s)"
    using Cons.prems new by auto
  from Cons.IH[OF inv] obtain cs' where
    r: "pages_loop max_chars overlap pages (cs @ ?new) = Some cs'"
       "\<forall>c \<in> set cs'. chunk_text c \<noteq> [] \<and> page c \<in> insert pn seen \<union> fst ` set pages \<and>
              (\<exists>s. chunk_id c = ''p'' @ str_int (page c) @ ''_'' @ str_int s)"
       "distinct (map chunk_id (cs @ ?new)) \<and> distinct (map fst pages) \<and>
          insert pn seen \<inter> fst ` set pages = {} \<longrightarrow> distinct (map chunk_id cs')"
    by blast
  have res: "pages_loop max_chars overlap (a # pages) cs = Some cs'"
    using a w(1) r(1) by simp
  have d: "distinct (map chunk_id cs')"
    if h: "distinct (map chunk_id cs)" "distinct (map fst (a # pages))"
       "seen \<inter> fst ` set (a # pages) = {}"
  proof -
    have dn: "distinct (map chunk_id ?new)"
    proof -
      have "distinct starts" using w(2) strict_sorted_iff by blast
      moreover have "inj_on (\<lambda>s. chunk_id (window_chunk pn t s (window_end t max_chars s))) (set starts)"
        by (rule inj_onI) (simp add: window_chunk_def, metis page_id_inj append_Cons append_Nil)
      ultimately show ?thesis by (simp add: distinct_map comp_def)
    qed
    have dis: "set (map chunk_id cs) \<inter> set (map chunk_id ?new) = {}"
    proof (rule ccontr)
      assume "set (map chunk_id cs) \<inter> set (map chunk_id ?new) \<noteq> {}"
      then obtain c c' where cc: "c \<in> set cs" "c' \<in> set ?new" "chunk_id c = chunk_id c'" by auto
      from Cons.prems cc(1) obtain s where c: "page c \<in> seen"
        "chunk_id c = ''p'' @ str_int (page c) @ ''_'' @ str_int s" by blast
      from new cc(2) obtain s' where c': "page c' = pn"
        "chunk_id c' = ''p'' @ str_int (page c') @ ''_'' @ str_int s'" by blast
      from c(2) c'(2) cc(3) page_id_inj have "page c = page c'" by metis
      with c(1) c'(1) h(3) a show False by auto
    qed
    from h(1) dn dis have "distinct (map chunk_id (cs @ ?new))" by simp
    moreover from h(2) a have "distinct (map fst pages)" by simp
    moreover from h(2,3) a have "insert pn seen \<inter> fst ` set pages = {}" by auto
    ultimately show ?thesis using r(3) by blast
  qed
  have pg: "\<forall>c \<in> set cs'. chunk_text c \<noteq> [] \<and> page c \<in> seen \<union> fst ` set (a # pages) \<and>
              (\<exists>s. chunk_id c = ''p'' @ str_int (page c) @ ''_'' @ str_int s)"
    using r(2) a by auto
  from res pg d show ?case by blast
qed

lemma simple_chunk_pages_result:
  assumes "0 \<le> overlap" "overlap < max_chars"
  shows "\<exists>cs. simple_chunk_pages pages max_chars overlap = Some cs \<and>
           (\<forall>c \<in> set cs. chunk_text c \<noteq> [] \<and> page c \<in> fst ` set pages) \<and>
           (distinct (map fst pages) \<longrightarrow> distinct (map chunk_id cs))"
  using pages_loop_result[OF assms, of "[]" "{}" pages]
  unfolding simple_chunk_pages_def by auto

section \<open>Passes that do not fill the buffer\<close>

text \<open>A pass of the loop on a span of the current section that leaves the buffer below \<open>max_chars\<close>.\<close>

lemma merge_step_not_full:
  assumes "m_buf s \<noteq> [] \<longrightarrow> m_current_path s = path"
    and "int (m_cur_len s + length t) < max_chars"
  shows "m_chunks (merge_step max_chars overlap i (t, p, path) s) = m_chunks s \<and>
         m_buf (merge_step max_chars overlap i (t, p, path) s) = m_buf s @ [t] \<and>
         m_cur_len (merge_step max_chars overlap i (t, p, path) s) = m_cur_len s + length t \<and>
         m_current_path (merge_step max_chars overlap i (t, p, path) s) = path"
  using assms
  by (cases "m_buf s = []")
     (simp_all add: merge_step_def on_full_def append_span_def on_path_change_def on_empty_buf_def)

lemma merge_loop_append:
  "merge_loop max_chars overlap i (xs @ ys) s
     = merge_loop max_chars overlap (i + length xs) ys (merge_loop max_chars overlap i xs s)"
  by (induction xs arbitrary: i s) simp_all

text \<open>While the buffered length stays below \<open>max_chars\<close> nothing is flushed.\<close>

lemma merge_loop_not_full:
  assumes "\<forall>sp \<in> set xs. snd (snd sp) = path"
    and "m_buf s \<noteq> [] \<longrightarrow> m_current_path s = path"
    and "int (m_cur_len s + sum_list (map (\<lambda>sp. length (fst sp)) xs)) < max_chars"
  shows "m_chunks (merge_loop max_chars overlap i xs s) = m_chunks s \<and>
         m_buf (merge_loop max_chars overlap i xs s) = m_buf s @ map fst xs \<and>
         m_cur_len (merge_loop max_chars overlap i xs s)
           = m_cur_len s + sum_list (map (\<lambda>sp. length (fst sp)) xs) \<and>
         (m_buf (merge_loop max_chars overlap i xs s) \<noteq> [] \<longrightarrow>
            m_current_path (merge_loop max_chars overlap i xs s) = path)"
  using assms
proof (induction xs arbitrary: i s)
  case Nil
  then show ?case by simp
next
  case (Cons sp xs)
  obtain t p where sp: "sp = (t, p, path)" using Cons.prems(1) by (cases sp) auto
  let ?s = "merge_step max_chars overlap i (t, p, path) s"
  have nf: "int (m_cur_len s + length t) < max_chars" using Cons.prems(3) sp by simp
  from merge_step_not_full[OF Cons.prems(2) nf, of overlap i p]
  have st: "m_chunks ?s = m_chunks s" "m_buf ?s = m_buf s @ [t]"
    "m_cur_len ?s = m_cur_len s + length t" "m_current_path ?s = path" by simp_all
  have "\<forall>sp \<in> set xs. snd (snd sp) = path" using Cons.prems(1) by simp
  moreover have "m_buf ?s \<noteq> [] \<longrightarrow> m_current_path ?s = path" using st(4) by simp
  moreover have "int (m_cur_len ?s + sum_list (map (\<lambda>sp. length (fst sp)) xs)) < max_chars"
    using Cons.prems(3) sp st(3) by (simp add: add.assoc)
  ultimately show ?case
    using Cons.IH[of ?s "Suc i"] st sp by (simp add: add.assoc)
qed

section \<open>The retained tail\<close>

lemma tail_overlap_drop:
  "0 < overlap \<Longrightarrow> tail_overlap s overlap = drop (length s - nat overlap) s"
  by (auto simp: tail_overlap_def py_slice_from_def clamp_index_def max_def nat_diff_distrib')

lemma rstrip_keeps_prefix:
  assumes "T \<noteq> []" "\<not> is_space (last T)"
  shows "prefix T (rstrip (T @ X))"
proof (cases "\<forall>c \<in> set X. is_space c")
  case True
  then have "\<And>c. c \<in> set (rev X) \<Longrightarrow> is_space c" by simp
  then have "dropWhile is_space (rev X @ rev T) = dropWhile is_space (rev T)"
    by (rule dropWhile_append2)
  also have "\<dots> = rev T" using assms by (cases T rule: rev_cases) auto
  finally show ?thesis by (simp add: rstrip_def)
next
  case False
  then have "dropWhile is_space (rev X @ rev T) = dropWhile is_space (rev X) @ rev T"
    by (auto simp: dropWhile_append1)
  then show ?thesis by (simp add: rstrip_def)
qed

lemma join_Cons: "\<exists>X. join sep (x # xs) = x @ X"
  by (cases xs) auto

text \<open>
  A buffer that starts with a tail whose left-trimmed form is \<open>T\<close> is flushed to a text
  that starts with \<open>T\<close>.
\<close>

lemma strip_join_prefix:
  assumes "lstrip tail = T" "T \<noteq> []" "\<not> is_space (last T)"
  shows "prefix T (strip (join sep (tail # others)))"
proof -
  obtain X where X: "join sep (tail # others) = tail @ X" using join_Cons by blast
  have "dropWhile is_space tail \<noteq> []" using assms(1,2) by (simp add: lstrip_def)
  then have "\<exists>c \<in> set tail. \<not> is_space c" by (auto simp: dropWhile_eq_Nil_conv)
  then have "lstrip (tail @ X) = lstrip tail @ X"
    by (auto simp: lstrip_def dropWhile_append1)
  with assms(1) X have "strip (join sep (tail # others)) = rstrip (T @ X)" by (simp add: strip_def)
  with rstrip_keeps_prefix[OF assms(2,3)] show ?thesis by simp
qed

text \<open>
  The tail kept from the untrimmed joined buffer, trimmed on the left, is the tail of the
  trimmed chunk text, when the buffer does not end in whitespace and that tail does not
  start with whitespace.
\<close>

lemma lstrip_tail:
  assumes ov: "0 < overlap"
    and last: "joined \<noteq> []" "\<not> is_space (last joined)"
    and hd: "\<not> is_space (hd (tail_overlap (strip joined) overlap))"
  shows "lstrip (tail_overlap joined overlap) = tail_overlap (strip joined) overlap \<and>
         tail_overlap (strip joined) overlap \<noteq> [] \<and>
         \<not> is_space (last (tail_overlap (strip joined) overlap))"
proof -
  define ws where "ws = takeWhile is_space joined"
  define X where "X = lstrip joined"
  define k where "k = nat overlap"
  have k: "0 < k" using ov by (simp add: k_def)
  have j: "joined = ws @ X" by (simp add: ws_def X_def lstrip_def)
  have wsp: "\<forall>c \<in> set ws. is_space c" unfolding ws_def by (auto dest: set_takeWhileD)
  have Xne: "X \<noteq> []"
  proof
    assume "X = []"
    with j wsp last show False by (cases ws rule: rev_cases) auto
  qed
  have lastX: "last X = last joined" using j Xne by simp
  have sX: "strip joined = X" using Xne lastX last(2) by (simp add: strip_def X_def[symmetric] rstrip_id)
  have T: "tail_overlap (strip joined) overlap = drop (length X - k) X"
    using ov by (simp add: tail_overlap_drop sX k_def)
  have tail: "tail_overlap joined overlap = drop (length ws + length X - k) (ws @ X)"
    using ov by (simp add: tail_overlap_drop j k_def)
  have "0 < length X" using Xne by simp
  with k have lk: "length X - k < length X" by linarith
  then have Tne: "drop (length X - k) X \<noteq> []" by simp
  have lastT: "last (drop (length X - k) X) = last X" using lk by (simp add: last_drop)
  have "lstrip (drop (length ws + length X - k) (ws @ X)) = drop (length X - k) X"
  proof (cases "k \<le> length X")
    case True
    then have "drop (length ws + length X - k) (ws @ X) = drop (length X - k) X" by simp
    moreover have "lstrip (drop (length X - k) X) = drop (length X - k) X"
      using hd T by (intro lstrip_id) simp
    ultimately show ?thesis by simp
  next
    case False
    then have d: "drop (length ws + length X - k) (ws @ X) = drop (length ws + length X - k) ws @ X"
      by simp
    have "\<forall>c \<in> set (drop (length ws + length X - k) ws). is_space c"
      using wsp by (meson in_set_dropD)
    then have "lstrip (drop (length ws + length X - k) ws @ X) = lstrip X"
      by (simp add: lstrip_def dropWhile_append2)
    also have "\<dots> = X" by (simp add: X_def lstrip_def)
    also have "\<dots> = drop (length X - k) X" using False by simp
    finally show ?thesis using d by simp
  qed
  with T tail Tne lastT lastX last(2) show ?thesis by simp
qed

section \<open>The chunk after a length flush\<close>

lemma flush_prefix: "prefix cs (flush cs buf a pg path)"
  using flush_cases[of cs buf a pg path] by auto

lemma chunks_grow:
  "prefix (m_chunks s) (final_flush (merge_loop max_chars overlap i rest s))"
proof -
  have "prefix (m_chunks s) (m_chunks (merge_loop max_chars overlap i rest s)) \<and> True"
    by (rule merge_loop_inv[of "prefix (m_chunks s)" "\<lambda>pg. True"])
       (auto intro: prefix_order.trans flush_prefix)
  then show ?thesis
    unfolding final_flush_def by (meson prefix_order.trans flush_prefix)
qed

lemma flush_emits:
  assumes "lstrip tail = T" "T \<noteq> []" "\<not> is_space (last T)"
  shows "\<exists>c. flush cs (tail # others) a pg path = cs @ [c] \<and> prefix T (chunk_text c)"
proof -
  from strip_join_prefix[OF assms, of "NL @ NL" others]
  have p: "prefix T (strip (join (NL @ NL) (tail # others)))" .
  with assms(2) have "strip (join (NL @ NL) (tail # others)) \<noteq> []" by auto
  with p show ?thesis by (simp add: flush_def)
qed

lemma merge_step_after_tail:
  assumes T: "lstrip tail = T" "T \<noteq> []" "\<not> is_space (last T)"
    and buf: "m_buf s = tail # others"
  shows "(m_chunks (merge_step max_chars overlap i sp s) = m_chunks s \<and>
          (\<exists>others'. m_buf (merge_step max_chars overlap i sp s) = tail # others')) \<or>
         (\<exists>c cs'. m_chunks (merge_step max_chars overlap i sp s) = m_chunks s @ c # cs' \<and>
            prefix T (chunk_text c))"
proof -
  obtain t p path where sp: "sp = (t, p, path)" by (cases sp)
  let ?s1 = "on_empty_buf i sp s"
  have s1: "?s1 = s" using buf sp by (simp add: on_empty_buf_def)
  let ?s2 = "on_path_change i sp s"
  let ?s3 = "append_span sp ?s2"
  show ?thesis
  proof (cases "path \<noteq> m_current_path s")
    case True
    from flush_emits[OF T, of "m_chunks s" others "m_start s" "m_current_page s" "m_current_path s"]
    obtain c where c: "flush (m_chunks s) (tail # others) (m_start s) (m_current_page s)
        (m_current_path s) = m_chunks s @ [c]" "prefix T (chunk_text c)" by blast
    have c2: "m_chunks ?s3 = m_chunks s @ [c]"
      using True buf sp c(1) by (simp add: on_path_change_def append_span_def)
    have "prefix (m_chunks ?s3) (m_chunks (on_full max_chars overlap i sp ?s3))"
      using sp by (simp add: on_full_def flush_prefix)
    then obtain cs' where "m_chunks (on_full max_chars overlap i sp ?s3) = (m_chunks s @ [c]) @ cs'"
      unfolding c2 by (auto simp: prefix_def)
    then have "m_chunks (merge_step max_chars overlap i sp s) = m_chunks s @ c # cs'"
      by (simp add: merge_step_def s1)
    with c(2) show ?thesis by blast
  next
    case False
    then have s2: "?s2 = s" using sp by (simp add: on_path_change_def)
    have b3: "m_buf ?s3 = tail # (others @ [t])" "m_chunks ?s3 = m_chunks s"
      using s2 sp buf by (simp_all add: append_span_def)
    show ?thesis
    proof (cases "max_chars \<le> int (m_cur_len ?s3)")
      case full: True
      from flush_emits[OF T, of "m_chunks s" "others @ [t]" "m_start ?s3" "m_current_page ?s3"
          "m_current_path ?s3"]
      obtain c where c: "flush (m_chunks s) (tail # (others @ [t])) (m_start ?s3)
          (m_current_page ?s3) (m_current_path ?s3) = m_chunks s @ [c]" "prefix T (chunk_text c)"
        by blast
      have "m_chunks (on_full max_chars overlap i sp ?s3) = m_chunks s @ [c]"
        using full sp b3 c(1) by (simp add: on_full_def)
      then have "m_chunks (merge_step max_chars overlap i sp s) = m_chunks s @ c # []"
        by (simp add: merge_step_def s1)
      with c(2) show ?thesis by blast
    next
      case nf: False
      then have "on_full max_chars overlap i sp ?s3 = ?s3" using sp by (simp add: on_full_def)
      then have "merge_step max_chars overlap i sp s = ?s3" by (simp add: merge_step_def s1)
      with b3 show ?thesis by simp
    qed
  qed
qed

lemma next_chunk_has_tail:
  assumes T: "lstrip tail = T" "T \<noteq> []" "\<not> is_space (last T)"
    and buf: "m_buf s = tail # others"
  shows "length (m_chunks s) < length (final_flush (merge_loop max_chars overlap i rest s)) \<and>
         prefix T (chunk_text (final_flush (merge_loop max_chars overlap i rest s)
                                 ! length (m_chunks s)))"
  using buf
proof (induction rest arbitrary: i s others)
  case Nil
  from flush_emits[OF T, of "m_chunks s" others "m_start s" "m_current_page s" "m_current_path s"]
  obtain c where "final_flush s = m_chunks s @ [c]" "prefix T (chunk_text c)"
    using Nil by (auto simp: final_flush_def)
  then show ?case by simp
next
  case (Cons sp rest)
  let ?s' = "merge_step max_chars overlap i sp s"
  let ?fin = "final_flush (merge_loop max_chars overlap (Suc i) rest ?s')"
  from merge_step_after_tail[OF T Cons.prems, of max_chars overlap i sp]
  show ?case
  proof
    assume a: "m_chunks ?s' = m_chunks s \<and> (\<exists>others'. m_buf ?s' = tail # others')"
    then obtain others' where "m_buf ?s' = tail # others'" by blast
    from Cons.IH[OF this, of "Suc i"] a show ?thesis by simp
  next
    assume "\<exists>c cs'. m_chunks ?s' = m_chunks s @ c # cs' \<and> prefix T (chunk_text c)"
    then obtain c cs' where c: "m_chunks ?s' = m_chunks s @ c # cs'" "prefix T (chunk_text c)"
      by blast
    from chunks_grow[of ?s' max_chars overlap "Suc i" rest] obtain more_cs where
      "?fin = (m_chunks s @ c # cs') @ more_cs" unfolding c(1) by (auto simp: prefix_def)
    then have "length (m_chunks s) < length ?fin" "?fin ! length (m_chunks s) = c"
      by (simp_all add: nth_append)
    with c(2) show ?thesis by simp
  qed
qed

text \<open>The pass of the loop that flushes by length and keeps the tail.\<close>

lemma merge_step_keeps_tail:
  assumes "0 < overlap"
    and s3: "s3 = append_span sp (on_path_change i sp (on_empty_buf i sp s))"
    and full: "max_chars \<le> int (m_cur_len s3)"
    and emitted: "strip (join (NL @ NL) (m_buf s3)) \<noteq> []"
  shows "\<exists>c. m_chunks (merge_step max_chars overlap i sp s) = m_chunks s3 @ [c] \<and>
             chunk_text c = strip (join (NL @ NL) (m_buf s3)) \<and>
             m_buf (merge_step max_chars overlap i sp s)
               = [tail_overlap (join (NL @ NL) (m_buf s3)) overlap]"
proof -
  obtain t p path where sp: "sp = (t, p, path)" by (cases sp)
  have ne: "m_buf s3 \<noteq> []" using s3 sp by (simp add: append_span_def)
  have "merge_step max_chars overlap i sp s = on_full max_chars overlap i sp s3"
    by (simp add: merge_step_def s3)
  with assms(1) full emitted ne sp show ?thesis
    by (simp add: on_full_def flush_def)
qed

lemma join_last:
  "xs \<noteq> [] \<Longrightarrow> last xs \<noteq> [] \<Longrightarrow> join sep xs \<noteq> [] \<and> last (join sep xs) = last (last xs)"
  by (induction sep xs rule: join.induct) auto

section \<open>Consecutive windows\<close>

lemma py_slice_nat: "py_slice s (int a) (int b) = take (b - a) (drop a s)"
proof (cases "a \<le> length s")
  case True
  then show ?thesis
    by (cases "b \<le> length s") (simp_all add: py_slice_def clamp_index_def min_def Let_def)
next
  case False
  then show ?thesis by (simp add: py_slice_def clamp_index_def min_def Let_def)
qed

lemma window_end_nat: "window_end t (int m) (int x) = int (min (length t) (x + m))"
  by (simp add: window_end_def min_def)

lemma window_chunk_text_nat:
  "chunk_text (window_chunk pn t (int x) (window_end t (int m) (int x)))
     = take (min (length t) (x + m) - x) (drop x t)"
  unfolding window_end_nat by (simp add: window_chunk_def py_slice_nat)

text \<open>Two windows in a row on one page.\<close>

lemma window_overlap:
  assumes "0 < overlap" "overlap < max_chars" "0 \<le> start" "start < int (length t)"
    and more: "window_end t max_chars start \<noteq> int (length t)"
  shows "\<exists>others. window_loop max_chars overlap pn t start cs
           = Some (cs @ window_chunk pn t start (window_end t max_chars start)
                      # window_chunk pn t (next_start (window_end t max_chars start) overlap)
                          (window_end t max_chars
                             (next_start (window_end t max_chars start) overlap))
                      # others) \<and>
         prefix (tail_overlap
                   (chunk_text (window_chunk pn t start (window_end t max_chars start))) overlap)
           (chunk_text (window_chunk pn t (next_start (window_end t max_chars start) overlap)
              (window_end t max_chars (next_start (window_end t max_chars start) overlap))))"
proof -
  let ?e = "window_end t max_chars start"
  let ?s = "next_start ?e overlap"
  let ?c = "window_chunk pn t start ?e"
  have e: "?e = start + max_chars" "?e < int (length t)"
    using more by (auto simp: window_end_def min_def split: if_splits)
  have s: "?s = ?e - overlap" "0 \<le> ?s" "?s < int (length t)"
    using e assms by (auto simp: next_start_def)
  have "0 \<le> overlap" using assms(1) by simp
  from window_loop_result[OF this assms(2) s(2), of pn t "cs @ [?c]"] s(3)
  obtain starts where st: "window_loop max_chars overlap pn t ?s (cs @ [?c])
       = Some ((cs @ [?c]) @ map (\<lambda>s. window_chunk pn t s (window_end t max_chars s)) starts)"
      "starts \<noteq> []" "hd starts = ?s" by blast
  then obtain starts' where starts: "starts = ?s # starts'" by (cases starts) auto
  have "window_loop max_chars overlap pn t start cs
      = window_loop max_chars overlap pn t ?s (cs @ [?c])"
    using assms(4) more by (subst window_loop.simps) simp
  with st(1) starts have r: "window_loop max_chars overlap pn t start cs
      = Some (cs @ ?c # window_chunk pn t ?s (window_end t max_chars ?s)
               # map (\<lambda>s. window_chunk pn t s (window_end t max_chars s)) starts')"
    by simp
  define a m ov where "a = nat start" and "m = nat max_chars" and "ov = nat overlap"
  have ints: "start = int a" "max_chars = int m" "overlap = int ov"
    using assms by (simp_all add: a_def m_def ov_def)
  have b: "0 < ov" "ov < m" "a + m < length t" using assms e ints by simp_all
  have ct: "chunk_text ?c = take m (drop a t)"
    unfolding ints window_chunk_text_nat using b by (simp add: min_def)
  have tl: "tail_overlap (chunk_text ?c) overlap = take ov (drop (a + m - ov) t)"
  proof -
    have "length (take m (drop a t)) = m" using b by simp
    then have "tail_overlap (chunk_text ?c) overlap = drop (m - ov) (take m (drop a t))"
      using assms(1) by (simp add: tail_overlap_drop ct ov_def)
    also have "\<dots> = take ov (drop (a + m - ov) t)"
      using b by (simp add: drop_take add.commute)
    finally show ?thesis .
  qed
  have s': "?s = int (a + m - ov)" using s(1) e(1) ints b by simp
  define j where "j = min (length t) (a + m - ov + m) - (a + m - ov)"
  have j: "ov \<le> j"
    "chunk_text (window_chunk pn t ?s (window_end t max_chars ?s)) = take j (drop (a + m - ov) t)"
  proof -
    show "ov \<le> j" using b unfolding j_def min_def by (cases "length t \<le> a + m - ov + m") simp_all
    show "chunk_text (window_chunk pn t ?s (window_end t max_chars ?s))
        = take j (drop (a + m - ov) t)"
      unfolding s' unfolding ints(2) window_chunk_text_nat j_def ..
  qed
  have "prefix (take ov (drop (a + m - ov) t)) (take j (drop (a + m - ov) t))"
    using j(1) by (metis min.absorb1 take_is_prefix take_take)
  with r tl j(2) show ?thesis by auto
qed

section \<open>Counting the chunks of one section\<close>

lemma join_length: "sum_list (map length xs) \<le> length (join sep xs)"
  by (induction sep xs rule: join.induct) auto

lemma tail_overlap_length:
  assumes "0 < overlap" "overlap \<le> int (length j)"
  shows "length (tail_overlap j overlap) = nat overlap"
  using assms by (simp add: tail_overlap_drop)

lemma tail_overlap_last:
  assumes "0 < overlap" "j \<noteq> []"
  shows "tail_overlap j overlap \<noteq> [] \<and> last (tail_overlap j overlap) = last j"
proof -
  have "length j - nat overlap < length j" using assms by (cases j) auto
  then show ?thesis using assms(1) by (simp add: tail_overlap_drop)
qed

lemma flush_ends_nonspace:
  assumes "buf \<noteq> []" "last buf \<noteq> []" "\<not> is_space (last (last buf))"
  shows "length (flush cs buf a pg path) = Suc (length cs)"
proof -
  from join_last[OF assms(1,2), of "NL @ NL"]
  have j: "join (NL @ NL) buf \<noteq> []" "last (join (NL @ NL) buf) = last (last buf)" by simp_all
  from last_in_set[OF j(1)] have "last (join (NL @ NL) buf) \<in> set (join (NL @ NL) buf)" .
  with j(2) assms(3) have "\<not> (\<forall>c \<in> set (join (NL @ NL) buf). is_space c)" by metis
  then have "strip (join (NL @ NL) buf) \<noteq> []" by (simp add: strip_blank)
  with assms(1) show ?thesis by (simp add: flush_def)
qed

lemma merge_step_full_any:
  assumes "m_buf s \<noteq> [] \<longrightarrow> m_current_path s = path"
    and "max_chars \<le> int (m_cur_len s + length t)"
  shows "(\<exists>a pg. m_chunks (merge_step max_chars overlap i (t, p, path) s)
            = flush (m_chunks s) (m_buf s @ [t]) a pg path) \<and>
         m_buf (merge_step max_chars overlap i (t, p, path) s)
           = (if 0 < overlap then [tail_overlap (join (NL @ NL) (m_buf s @ [t])) overlap] else []) \<and>
         m_cur_len (merge_step max_chars overlap i (t, p, path) s)
           = (if 0 < overlap then length (tail_overlap (join (NL @ NL) (m_buf s @ [t])) overlap)
              else 0) \<and>
         m_current_path (merge_step max_chars overlap i (t, p, path) s) = path"
  using assms
  by (cases "m_buf s = []")
     (auto simp: merge_step_def on_full_def append_span_def on_path_change_def on_empty_buf_def)

lemma section_inv_step:
  assumes inv: "section_inv max_chars overlap longest path consumed s"
    and m: "0 < max_chars" "overlap < max_chars"
    and t: "t \<noteq> []" "\<not> is_space (last t)" "length t \<le> longest"
  shows "section_inv max_chars overlap longest path (consumed + length t)
           (merge_step max_chars overlap i (t, p, path) s)"
proof (cases "int (m_cur_len s + length t) < max_chars")
  case True
  from inv have cp: "m_buf s \<noteq> [] \<longrightarrow> m_current_path s = path" by (simp add: section_inv_def)
  from merge_step_not_full[OF cp True, of overlap i p] inv t
  show ?thesis using True by (auto simp: section_inv_def)
next
  case False
  let ?s' = "merge_step max_chars overlap i (t, p, path) s"
  let ?j = "join (NL @ NL) (m_buf s @ [t])"
  let ?F = "int (length (m_chunks s))"
  let ?E = "max_chars - max overlap 0"
  from False have full: "max_chars \<le> int (m_cur_len s + length t)" by simp
  from inv have cp: "m_buf s \<noteq> [] \<longrightarrow> m_current_path s = path" by (simp add: section_inv_def)
  from merge_step_full_any[OF cp full, of overlap i p] obtain a pg where
    r: "m_chunks ?s' = flush (m_chunks s) (m_buf s @ [t]) a pg path"
       "m_buf ?s' = (if 0 < overlap then [tail_overlap ?j overlap] else [])"
       "m_cur_len ?s' = (if 0 < overlap then length (tail_overlap ?j overlap) else 0)"
       "m_current_path ?s' = path" by blast
  have len: "length (m_chunks ?s') = Suc (length (m_chunks s))"
    unfolding r(1) using t by (intro flush_ends_nonspace) simp_all
  have jl: "?j \<noteq> []" "last ?j = last t"
    using join_last[of "m_buf s @ [t]" "NL @ NL"] t by simp_all
  have cl: "m_cur_len s = sum_list (map length (m_buf s))" using inv by (simp add: section_inv_def)
  have "m_cur_len s + length t \<le> length ?j"
    using join_length[of "m_buf s @ [t]" "NL @ NL"] cl by simp
  with full have jlen: "max_chars \<le> int (length ?j)" by linarith
  have c': "int (m_cur_len ?s') = max overlap 0"
  proof (cases "0 < overlap")
    case True
    with m(2) jlen have "overlap \<le> int (length ?j)" by linarith
    from tail_overlap_length[OF True this] True r(3) show ?thesis by simp
  next
    case False
    then show ?thesis using r(3) by simp
  qed
  have buf': "m_buf ?s' \<noteq> [] \<longrightarrow>
      m_current_path ?s' = path \<and> last (m_buf ?s') \<noteq> [] \<and> \<not> is_space (last (last (m_buf ?s')))"
    using r(2,4) tail_overlap_last[OF _ jl(1), of overlap] jl(2) t(2) by (simp split: if_splits)
  have sum': "m_cur_len ?s' = sum_list (map length (m_buf ?s'))" using r(2,3) by simp
  have lt: "int (m_cur_len s) < max_chars" using inv by (simp add: section_inv_def)
  have up: "?F * ?E + int (m_cur_len s) \<le> int consumed"
    and lo: "int consumed \<le> ?F * (?E + int longest - 1) + int (m_cur_len s)"
    using inv by (simp_all add: section_inv_def)
  have up': "(?F + 1) * ?E + max overlap 0 \<le> int (consumed + length t)"
  proof -
    have "(?F + 1) * ?E + max overlap 0 = ?F * ?E + max_chars" by (simp add: algebra_simps)
    also have "\<dots> \<le> ?F * ?E + int (m_cur_len s + length t)" using full by simp
    also have "\<dots> \<le> int (consumed + length t)" using up by simp
    finally show ?thesis .
  qed
  have lo': "int (consumed + length t) \<le> (?F + 1) * (?E + int longest - 1) + max overlap 0"
  proof -
    have "int (consumed + length t) \<le> ?F * (?E + int longest - 1) + int (m_cur_len s) + int (length t)"
      using lo by simp
    also have "\<dots> \<le> ?F * (?E + int longest - 1) + (max_chars - 1) + int longest"
      using lt t(3) by simp
    also have "\<dots> = (?F + 1) * (?E + int longest - 1) + max overlap 0" by (simp add: algebra_simps)
    finally show ?thesis .
  qed
  have ne: "m_chunks ?s' \<noteq> []" using len by auto
  have b2: "0 < overlap \<longrightarrow> m_buf ?s' \<noteq> []" using r(2) by simp
  have c'lt: "int (m_cur_len ?s') < max_chars" using c' m by simp
  show ?thesis
    unfolding section_inv_def
    using buf' sum' c'lt c' b2 up' lo' len by (simp add: algebra_simps)
qed

lemma section_inv_loop:
  assumes "section_inv max_chars overlap longest path consumed s"
    and "0 < max_chars" "overlap < max_chars"
    and "\<forall>sp \<in> set spans. snd (snd sp) = path \<and> fst sp \<noteq> [] \<and> \<not> is_space (last (fst sp)) \<and>
           length (fst sp) \<le> longest"
  shows "section_inv max_chars overlap longest path
           (consumed + sum_list (map (\<lambda>sp. length (fst sp)) spans))
           (merge_loop max_chars overlap i spans s)"
  using assms(1,4)
proof (induction spans arbitrary: consumed s i)
  case Nil
  then show ?case by simp
next
  case (Cons sp spans)
  obtain t p where sp: "sp = (t, p, path)" using Cons.prems(2) by (cases sp) auto
  have t: "t \<noteq> []" "\<not> is_space (last t)" "length t \<le> longest" using Cons.prems(2) sp by simp_all
  from section_inv_step[OF Cons.prems(1) assms(2,3) t, of i p]
  have "section_inv max_chars overlap longest path (consumed + length t)
          (merge_step max_chars overlap i sp s)"
    using sp by simp
  from Cons.IH[OF this, of "Suc i"] Cons.prems(2) sp show ?case by (simp add: add.assoc)
qed


lemma final_flush_count:
  assumes "m_buf s \<noteq> [] \<longrightarrow> last (m_buf s) \<noteq> [] \<and> \<not> is_space (last (last (m_buf s)))"
  shows "length (final_flush s) = length (m_chunks s) + (if m_buf s = [] then 0 else 1)"
proof (cases "m_buf s = []")
  case True
  then show ?thesis by (simp add: final_flush_def flush_def)
next
  case False
  with assms flush_ends_nonspace[of "m_buf s" "m_chunks s" "m_start s" "m_current_page s"
      "m_current_path s"]
  show ?thesis by (simp add: final_flush_def)
qed

lemma merge_spans_section:
  assumes "0 < max_chars" "overlap < max_chars"
    and "\<forall>sp \<in> set spans. snd (snd sp) = path \<and> fst sp \<noteq> [] \<and> \<not> is_space (last (fst sp)) \<and>
           length (fst sp) \<le> longest"
  shows "\<exists>s. section_inv max_chars overlap longest path
               (sum_list (map (\<lambda>sp. length (fst sp)) spans)) s \<and>
             length (merge_spans spans max_chars overlap)
               = length (m_chunks s) + (if m_buf s = [] then 0 else 1)"
proof -
  let ?s = "merge_loop max_chars overlap 0 spans initial_state"
  have "section_inv max_chars overlap longest path 0 initial_state"
    using assms(1) by (simp add: section_inv_def initial_state_def)
  from section_inv_loop[OF this assms, of 0]
  have inv: "section_inv max_chars overlap longest path
               (sum_list (map (\<lambda>sp. length (fst sp)) spans)) ?s" by simp
  then have "m_buf ?s \<noteq> [] \<longrightarrow> last (m_buf ?s) \<noteq> [] \<and> \<not> is_space (last (last (m_buf ?s)))"
    by (simp add: section_inv_def)
  from final_flush_count[OF this] inv show ?thesis
    unfolding merge_spans_def by blast
qed

text \<open>
  The count without overlap: between \<open>L / (max_chars + longest - 1)\<close> and
  \<open>L / max_chars\<close>, both rounded up.
\<close>

lemma merge_spans_count_plain:
  assumes "0 < max_chars" "overlap \<le> 0"
    and "\<forall>sp \<in> set spans. snd (snd sp) = path \<and> fst sp \<noteq> [] \<and> \<not> is_space (last (fst sp)) \<and>
           length (fst sp) \<le> longest"
  shows "int (length (merge_spans spans max_chars overlap)) * max_chars
           < int (sum_list (map (\<lambda>sp. length (fst sp)) spans)) + max_chars"
    and "int (sum_list (map (\<lambda>sp. length (fst sp)) spans))
           \<le> int (length (merge_spans spans max_chars overlap)) * (max_chars + int longest - 1)"
proof -
  let ?L = "sum_list (map (\<lambda>sp. length (fst sp)) spans)"
  let ?n = "length (merge_spans spans max_chars overlap)"
  have ov: "overlap < max_chars" using assms(1,2) by simp
  from merge_spans_section[OF assms(1) ov assms(3)] obtain s where
    inv: "section_inv max_chars overlap longest path ?L s"
    and n: "?n = length (m_chunks s) + (if m_buf s = [] then 0 else 1)" by blast
  let ?F = "int (length (m_chunks s))"
  let ?c = "int (m_cur_len s)"
  from inv assms(2) have
    up: "?F * max_chars + ?c \<le> int ?L"
    and lo: "int ?L \<le> ?F * (max_chars + int longest - 1) + ?c"
    and lt: "?c < max_chars"
    and sum: "m_cur_len s = sum_list (map length (m_buf s))"
    and nb: "m_buf s \<noteq> [] \<longrightarrow> last (m_buf s) \<noteq> []"
    by (simp_all add: section_inv_def max_def)
  have pos: "m_buf s \<noteq> [] \<longrightarrow> 0 < ?c"
  proof
    assume b: "m_buf s \<noteq> []"
    then have "last (m_buf s) \<in> set (m_buf s)" by simp
    then have "length (last (m_buf s)) \<le> sum_list (map length (m_buf s))"
      by (simp add: member_le_sum_list)
    with nb b sum show "0 < ?c" by (cases "last (m_buf s)") auto
  qed
  have zero: "m_buf s = [] \<longrightarrow> ?c = 0" using sum by simp
  show "int ?n * max_chars < int ?L + max_chars"
  proof (cases "m_buf s = []")
    case True
    then show ?thesis using n up assms(1) by simp
  next
    case False
    with pos have "0 < ?c" by simp
    moreover have "int ?n * max_chars = ?F * max_chars + max_chars"
      using n False by (simp add: algebra_simps)
    ultimately show ?thesis using up by linarith
  qed
  show "int ?L \<le> int ?n * (max_chars + int longest - 1)"
  proof (cases "m_buf s = []")
    case True
    then show ?thesis using n lo zero by simp
  next
    case False
    have "int ?n * (max_chars + int longest - 1)
        = ?F * (max_chars + int longest - 1) + (max_chars + int longest - 1)"
      using n False by (simp add: algebra_simps)
    moreover have "?c \<le> max_chars + int longest - 1" using lt by simp
    ultimately show ?thesis using lo by linarith
  qed
qed

text \<open>
  The count with overlap: every chunk but the first and the last takes at least
  \<open>max_chars - overlap\<close> new characters.
\<close>

lemma merge_spans_count_overlap:
  assumes "0 < overlap" "overlap < max_chars" "spans \<noteq> []"
    and "\<forall>sp \<in> set spans. snd (snd sp) = path \<and> fst sp \<noteq> [] \<and> \<not> is_space (last (fst sp)) \<and>
           length (fst sp) \<le> longest"
  shows "1 \<le> length (merge_spans spans max_chars overlap)"
    and "2 \<le> length (merge_spans spans max_chars overlap) \<longrightarrow>
           max_chars + (int (length (merge_spans spans max_chars overlap)) - 2) * (max_chars - overlap)
             \<le> int (sum_list (map (\<lambda>sp. length (fst sp)) spans))"
    and "int (sum_list (map (\<lambda>sp. length (fst sp)) spans))
           < max_chars + (int (length (merge_spans spans max_chars overlap)) - 1)
                * (max_chars - overlap + int longest - 1)"
proof -
  let ?L = "sum_list (map (\<lambda>sp. length (fst sp)) spans)"
  let ?n = "length (merge_spans spans max_chars overlap)"
  have m: "0 < max_chars" using assms(1,2) by simp
  from merge_spans_section[OF m assms(2,4)] obtain s where
    inv: "section_inv max_chars overlap longest path ?L s"
    and n: "?n = length (m_chunks s) + (if m_buf s = [] then 0 else 1)" by blast
  let ?F = "int (length (m_chunks s))"
  let ?c = "int (m_cur_len s)"
  from inv assms(1) have
    up: "?F * (max_chars - overlap) + ?c \<le> int ?L"
    and lo: "int ?L \<le> ?F * (max_chars - overlap + int longest - 1) + ?c"
    and lt: "?c < max_chars"
    and sum: "m_cur_len s = sum_list (map length (m_buf s))"
    and ge: "m_chunks s \<noteq> [] \<longrightarrow> overlap \<le> ?c"
    and b: "m_chunks s \<noteq> [] \<longrightarrow> m_buf s \<noteq> []"
    by (auto simp: section_inv_def max_def)
  obtain sp rest where sr: "spans = sp # rest" using assms(3) by (cases spans) auto
  have "fst sp \<noteq> []" using assms(4) sr by simp
  then have Lpos: "0 < ?L" using sr by simp
  have buf: "m_buf s \<noteq> []"
  proof (cases "m_chunks s = []")
    case True
    with lo have "int ?L \<le> ?c" by simp
    with Lpos have "0 < m_cur_len s" by linarith
    with sum show ?thesis by (cases "m_buf s") simp_all
  next
    case False
    with b show ?thesis by simp
  qed
  have n': "int ?n = ?F + 1" using n buf by simp
  show "1 \<le> ?n" using n buf by simp
  show "2 \<le> ?n \<longrightarrow> max_chars + (int ?n - 2) * (max_chars - overlap) \<le> int ?L"
  proof
    assume "2 \<le> ?n"
    with n buf have ne: "m_chunks s \<noteq> []" by auto
    with ge have "overlap \<le> ?c" by simp
    moreover have "max_chars + (int ?n - 2) * (max_chars - overlap)
        = ?F * (max_chars - overlap) + overlap"
      unfolding n' by (simp add: algebra_simps)
    ultimately show "max_chars + (int ?n - 2) * (max_chars - overlap) \<le> int ?L"
      using up by linarith
  qed
  show "int ?L < max_chars + (int ?n - 1) * (max_chars - overlap + int longest - 1)"
    unfolding n' using lo lt by simp
qed

text \<open>The boundary case: the span texts add up to \<open>max_chars\<close> exactly.\<close>

lemma merge_spans_boundary_texts:
  assumes same: "\<forall>sp \<in> set spans. snd (snd sp) = path \<and> fst sp \<noteq> [] \<and>
             \<not> is_space (last (fst sp))"
    and total: "int (sum_list (map (\<lambda>sp. length (fst sp)) spans)) = max_chars"
    and m: "0 < max_chars"
  shows "map chunk_text (merge_spans spans max_chars overlap)
           = (if 0 < overlap
              then [strip (join (NL @ NL) (map fst spans)),
                    strip (tail_overlap (join (NL @ NL) (map fst spans)) overlap)]
              else [strip (join (NL @ NL) (map fst spans))])"
proof -
  let ?J = "join (NL @ NL) (map fst spans)"
  have ne: "spans \<noteq> []" using total m by auto
  then obtain xs sp where sx: "spans = xs @ [sp]" by (cases spans rule: rev_cases) auto
  obtain t p where sp: "sp = (t, p, path)" using same sx by (cases sp) auto
  have t: "t \<noteq> []" "\<not> is_space (last t)" using same sx sp by simp_all
  let ?s1 = "merge_loop max_chars overlap 0 xs initial_state"
  have lt: "int (m_cur_len initial_state + sum_list (map (\<lambda>sp. length (fst sp)) xs)) < max_chars"
  proof -
    have "0 < int (length t)" using t by simp
    moreover have "int (sum_list (map (\<lambda>sp. length (fst sp)) xs)) + int (length t) = max_chars"
      using total sx sp by simp
    moreover have "m_cur_len initial_state = 0" by (simp add: initial_state_def)
    ultimately show ?thesis by linarith
  qed
  have "\<forall>sp \<in> set xs. snd (snd sp) = path" using same sx by simp
  from merge_loop_not_full[OF this _ lt, of overlap 0]
  have s1: "m_chunks ?s1 = []" "m_buf ?s1 = map fst xs"
    "m_cur_len ?s1 = sum_list (map (\<lambda>sp. length (fst sp)) xs)"
    "m_buf ?s1 \<noteq> [] \<longrightarrow> m_current_path ?s1 = path"
    by (simp_all add: initial_state_def)
  let ?s2 = "merge_step max_chars overlap (length xs) (t, p, path) ?s1"
  have full: "max_chars \<le> int (m_cur_len ?s1 + length t)"
    using total sx sp s1(3) by simp
  have bufs: "m_buf ?s1 @ [t] = map fst spans" using s1(2) sx sp by simp
  from merge_step_full_any[OF s1(4) full, of overlap "length xs" p] obtain a pg where
    s2: "m_chunks ?s2 = flush [] (map fst spans) a pg path"
      "m_buf ?s2 = (if 0 < overlap then [tail_overlap ?J overlap] else [])"
    unfolding bufs s1(1) by blast
  have J: "?J \<noteq> []" "last ?J = last t"
    using join_last[of "map fst spans" "NL @ NL"] t sx sp by simp_all
  from last_in_set[OF J(1)] J(2) t(2) have "\<not> (\<forall>c \<in> set ?J. is_space c)" by metis
  then have nb: "strip ?J \<noteq> []" by (simp add: strip_blank)
  have c1: "map chunk_text (m_chunks ?s2) = [strip ?J]" "m_chunks ?s2 \<noteq> []"
    unfolding s2(1) using nb ne by (simp_all add: flush_def)
  have ms: "merge_spans spans max_chars overlap = final_flush ?s2"
    using sx sp by (simp add: merge_spans_def merge_loop_append)
  show ?thesis
  proof (cases "0 < overlap")
    case True
    let ?T = "tail_overlap ?J overlap"
    from tail_overlap_last[OF True J(1)] J(2) t(2)
    have T: "?T \<noteq> []" "\<not> is_space (last ?T)" by simp_all
    from last_in_set[OF T(1)] T(2) have "\<not> (\<forall>c \<in> set ?T. is_space c)" by metis
    then have "strip ?T \<noteq> []" by (simp add: strip_blank)
    then have "map chunk_text (final_flush ?s2) = map chunk_text (m_chunks ?s2) @ [strip ?T]"
      using s2(2) True by (simp add: final_flush_def flush_def)
    with c1 ms True show ?thesis by simp
  next
    case False
    then have "final_flush ?s2 = m_chunks ?s2" using s2(2) by (simp add: final_flush_def flush_def)
    with c1 ms False show ?thesis by simp
  qed
qed

section \<open>Schema coercion\<close>

lemma map_of_dict_set: "map_of (dict_set out k v) = (map_of out)(k \<mapsto> v)"
  by (induction out) (auto simp: fun_eq_iff)

lemma keys_dict_set: "k \<in> fst ` set out \<Longrightarrow> map fst (dict_set out k v) = map fst out"
proof (induction out)
  case Nil
  then show ?case by simp
next
  case (Cons a out)
  obtain k' v' where a: "a = (k', v')" by (cases a)
  show ?case
  proof (cases "k' = k")
    case True
    with a show ?thesis by simp
  next
    case False
    with Cons.prems a have "k \<in> fst ` set out" by auto
    from Cons.IH[OF this] a False show ?thesis by simp
  qed
qed

lemma map_of_coerce_loop:
  "map_of (coerce_loop repr d ks out) k =
     (if k \<in> set ks then Some (coerce_value repr k (dict_get d k)) else map_of out k)"
  by (induction ks arbitrary: out) (auto simp: map_of_dict_set)

lemma keys_coerce_loop:
  "set ks \<subseteq> fst ` set out \<Longrightarrow> map fst (coerce_loop repr d ks out) = map fst out"
proof (induction ks arbitrary: out)
  case Nil
  then show ?case by simp
next
  case (Cons k ks)
  have "map fst (dict_set out k (coerce_value repr k (dict_get d k))) = map fst out"
    using Cons.prems by (simp add: keys_dict_set)
  moreover have "set ks \<subseteq> fst ` set (dict_set out k (coerce_value repr k (dict_get d k)))"
    using Cons.prems calculation by (metis (no_types) insert_subset list.simps(15) set_map)
  ultimately show ?case using Cons.IH by simp
qed

lemma keys_all_none: "map fst all_none = SUMMARY_FIELDS"
  by (simp add: all_none_def comp_def)

lemma keys_coerce_summary: "map fst (coerce_summary repr (JDict d)) = SUMMARY_FIELDS"
proof -
  have "set SUMMARY_FIELDS \<subseteq> fst ` set all_none"
    using keys_all_none by (metis set_map subset_refl)
  then show ?thesis by (simp add: coerce_summary_def keys_coerce_loop keys_all_none)
qed


text \<open>
  C9. On a dict, \<open>_coerce_summary\<close> returns the seven fixed keys in order. A scalar field
  that is missing or \<open>None\<close> becomes \<open>None\<close>, a present one becomes its \<open>str\<close>.
  \<open>compliance_notes\<close> becomes the empty list unless it is a list, and then its elements
  in order, \<open>None\<close> dropped, each as its \<open>str\<close>; the list \<open>[1, null, "x"]\<close> becomes
  \<open>["1", "x"]\<close>.
\<close>

theorem coerce_summary_schema:
  "map fst (coerce_summary repr (JDict d)) = SUMMARY_FIELDS \<and>
   (\<forall>k \<in> set SUMMARY_FIELDS. k \<noteq> ''compliance_notes'' \<longrightarrow>
      ((map_of d k = None \<or> map_of d k = Some JNull) \<longrightarrow>
         map_of (coerce_summary repr (JDict d)) k = Some SNone) \<and>
      (\<forall>v. map_of d k = Some v \<and> v \<noteq> JNull \<longrightarrow>
         map_of (coerce_summary repr (JDict d)) k = Some (SStr (py_str repr v)))) \<and>
   (\<forall>xs. map_of d ''compliance_notes'' = Some (JList xs) \<longrightarrow>
      map_of (coerce_summary repr (JDict d)) ''compliance_notes''
        = Some (SList (map (py_str repr) (filter (\<lambda>x. x \<noteq> JNull) xs)))) \<and>
   ((\<forall>xs. map_of d ''compliance_notes'' \<noteq> Some (JList xs)) \<longrightarrow>
      map_of (coerce_summary repr (JDict d)) ''compliance_notes'' = Some (SList [])) \<and>
   coerce_summary repr (JDict [(''compliance_notes'', JList [JInt 1, JNull, JStr ''x''])])
     = [(''tender_name'', SNone), (''issuer'', SNone), (''emd_amount'', SNone),
        (''location'', SNone), (''duration'', SNone), (''scope_of_work'', SNone),
        (''compliance_notes'', SList [''1'', ''x''])]"
proof (intro conjI ballI impI allI)
  show "map fst (coerce_summary repr (JDict d)) = SUMMARY_FIELDS"
    by (rule keys_coerce_summary)
next
  fix k assume k: "k \<in> set SUMMARY_FIELDS" "k \<noteq> ''compliance_notes''"
  have look: "map_of (coerce_summary repr (JDict d)) k = Some (coerce_value repr k (dict_get d k))"
    using k by (simp add: coerce_summary_def map_of_coerce_loop)
  { assume "map_of d k = None \<or> map_of d k = Some JNull"
    then have "is_None (dict_get d k)" by (auto simp: dict_get_def is_None_def)
    with look k show "map_of (coerce_summary repr (JDict d)) k = Some SNone"
      by (simp add: coerce_value_def) }
  { fix v assume "map_of d k = Some v \<and> v \<noteq> JNull"
    then have "dict_get d k = v" "\<not> is_None v"
      by (auto simp: dict_get_def is_None_def split: json.splits)
    with look k show "map_of (coerce_summary repr (JDict d)) k = Some (SStr (py_str repr v))"
      by (simp add: coerce_value_def) }
next
  have mem: "''compliance_notes'' \<in> set SUMMARY_FIELDS"
    by (simp add: SUMMARY_FIELDS_def)
  have look: "map_of (coerce_summary repr (JDict d)) ''compliance_notes''
      = Some (coerce_value repr ''compliance_notes'' (dict_get d ''compliance_notes''))"
    using mem by (simp add: coerce_summary_def map_of_coerce_loop)
  have nn: "(\<lambda>x. \<not> is_None x) = (\<lambda>x :: 'a json. x \<noteq> JNull)"
    by (auto simp: fun_eq_iff is_None_def split: json.splits)
  { fix xs assume "map_of d ''compliance_notes'' = Some (JList xs)"
    then have "dict_get d ''compliance_notes'' = JList xs" by (simp add: dict_get_def)
    with look show "map_of (coerce_summary repr (JDict d)) ''compliance_notes''
        = Some (SList (map (py_str repr) (filter (\<lambda>x. x \<noteq> JNull) xs)))"
      by (simp add: coerce_value_def nn) }
  { assume "\<forall>xs. map_of d ''compliance_notes'' \<noteq> Some (JList xs)"
    then have "\<forall>xs. dict_get d ''compliance_notes'' \<noteq> JList xs"
      by (auto simp: dict_get_def split: option.splits)
    with look show "map_of (coerce_summary repr (JDict d)) ''compliance_notes'' = Some (SList [])"
      by (simp add: coerce_value_def split: json.splits) }
next
  show "coerce_summary repr (JDict [(''compliance_notes'', JList [JInt 1, JNull, JStr ''x''])])
     = [(''tender_name'', SNone), (''issuer'', SNone), (''emd_amount'', SNone),
        (''location'', SNone), (''duration'', SNone), (''scope_of_work'', SNone),
        (''compliance_notes'', SList [''1'', ''x''])]"
    by (simp add: coerce_summary_def SUMMARY_FIELDS_def all_none_def coerce_value_def dict_get_def
        is_None_def py_str_def str_int_def str_nat.simps digit_char_def)
qed

theorem coerce_summary_schema_witness:
  "map_of (coerce_summary (\<lambda>v. ''?'')
      (JDict [(''issuer'', JInt 7), (''location'', JNull :: unit json),
              (''compliance_notes'', JList [JStr ''a'', JNull])])) ''issuer'' = Some (SStr ''7'') \<and>
   map_of (coerce_summary (\<lambda>v. ''?'')
      (JDict [(''issuer'', JInt 7), (''location'', JNull :: unit json),
              (''compliance_notes'', JList [JStr ''a'', JNull])])) ''location'' = Some SNone \<and>
   map_of (coerce_summary (\<lambda>v. ''?'')
      (JDict [(''issuer'', JInt 7), (''location'', JNull :: unit json),
              (''compliance_notes'', JList [JStr ''a'', JNull])])) ''compliance_notes''
     = Some (SList [''a''])"
  using coerce_summary_schema [of "\<lambda>v. ''?''"
      "[(''issuer'', JInt 7), (''location'', JNull :: unit json),
        (''compliance_notes'', JList [JStr ''a'', JNull])]"]
  by (simp add: SUMMARY_FIELDS_def py_str_def str_int_def str_nat.simps digit_char_def)

section \<open>Completion failure and the rule-based fallback\<close>

lemma is_effectively_empty_all_none: "is_effectively_empty all_none"
  by (simp add: is_effectively_empty_def all_none_def SUMMARY_FIELDS_def non_null_def)

lemma extract_json_block_sentinel:
  "search_fence l ''Not found in tender'' = None \<Longrightarrow>
   extract_json_block l ''Not found in tender'' = None"
  by (simp add: extract_json_block_def)

lemma keys_rules: "map fst (fst (extract_summary_rules l chunks)) = SUMMARY_FIELDS"
  by (simp add: extract_summary_rules_def Let_def SUMMARY_FIELDS_def)

lemma keys_coerce_any: "map fst (coerce_summary repr v) = SUMMARY_FIELDS"
proof (cases v)
  case (JDict d)
  then show ?thesis by (simp add: keys_coerce_summary)
qed (simp_all add: coerce_summary_def keys_all_none)

lemma keys_parse_or_none: "map fst (parse_or_none l s) = SUMMARY_FIELDS"
  by (cases "json_loads l s") (simp_all add: parse_or_none_def keys_all_none keys_coerce_any)

lemma keys_extract_summary_groq:
  "map fst (fst (extract_summary_groq l create chunks api_key model)) = SUMMARY_FIELDS"
  by (simp add: extract_summary_groq_def Let_def keys_all_none keys_rules keys_parse_or_none
      split: option.splits)

text \<open>
  C1 (as amended). When the completion call raises, \<open>GroqLLM.complete\<close> itself catches
  the failure and returns the fixed text \<open>Not found in tender\<close>. That text holds no
  fenced block and no brace and is not JSON, so \<open>extract_summary_groq\<close> gets the
  all-\<open>None\<close> record, which counts as empty, and returns what the rule-based extraction
  returns (the all-\<open>None\<close> record and no citation for an empty chunk list). The result
  always carries the seven fixed keys.
\<close>

theorem extract_summary_groq_on_failure:
  assumes "create (chat_request api_key model (build_summary_prompt chunks 8000) 0 600) = Raises"
    and "search_fence l ''Not found in tender'' = None"
    and "json_loads l ''Not found in tender'' = None"
  shows "complete create api_key model (build_summary_prompt chunks 8000) 0 600
           = ''Not found in tender'' \<and>
         extract_summary_groq l create chunks api_key model
           = (if chunks = [] then (all_none, []) else extract_summary_rules l chunks) \<and>
         map fst (fst (extract_summary_groq l create chunks api_key model)) = SUMMARY_FIELDS"
proof (intro conjI)
  show c: "complete create api_key model (build_summary_prompt chunks 8000) 0 600
           = ''Not found in tender''"
    using assms(1) by (simp add: complete_def)
  have p: "parse_or_none l ''Not found in tender'' = all_none"
    using assms(3) by (simp add: parse_or_none_def)
  show "extract_summary_groq l create chunks api_key model
           = (if chunks = [] then (all_none, []) else extract_summary_rules l chunks)"
    unfolding extract_summary_groq_def Let_def c
    by (simp add: extract_json_block_sentinel[OF assms(2)] p is_effectively_empty_all_none)
  show "map fst (fst (extract_summary_groq l create chunks api_key model)) = SUMMARY_FIELDS"
    by (rule keys_extract_summary_groq)
qed

theorem extract_summary_groq_on_failure_witness:
  "extract_summary_groq
     \<lparr>search_fence = (\<lambda>s. None), search_page_toc = (\<lambda>s. False),
      search_issuer = (\<lambda>s. None), search_emd = (\<lambda>s. None),
      search_duration = (\<lambda>s. None), search_location = (\<lambda>s. None),
      search_scope = (\<lambda>s. None), search_term = (\<lambda>t s. False),
      split_sentences = (\<lambda>s. [s]), json_loads = (\<lambda>s. None :: unit json option),
      py_repr = (\<lambda>v. []), float_is_zero = (\<lambda>f. True)\<rparr>
     (\<lambda>r. Raises)
     [\<lparr>chunk_id = ''p1_0'', page = 1, chunk_text = ''Tender for Road Construction'',
       section_hint = None\<rparr>]
     ''key'' ''llama3-70b-8192''
   = ([(''tender_name'', SStr ''Tender for Road Construction''), (''issuer'', SNone),
       (''emd_amount'', SNone), (''location'', SNone), (''duration'', SNone),
       (''scope_of_work'', SNone), (''compliance_notes'', SList [])],
      [\<lparr>chunk_id = ''p1_0'', page = 1, chunk_text = ''Tender for Road Construction'',
        section_hint = None\<rparr>])"
  using extract_summary_groq_on_failure
    [of "\<lambda>r. Raises" "''key''" "''llama3-70b-8192''"
        "[\<lparr>chunk_id = ''p1_0'', page = 1, chunk_text = ''Tender for Road Construction'',
           section_hint = None\<rparr>]"
        "\<lparr>search_fence = (\<lambda>s. None), search_page_toc = (\<lambda>s. False),
          search_issuer = (\<lambda>s. None), search_emd = (\<lambda>s. None),
          search_duration = (\<lambda>s. None), search_location = (\<lambda>s. None),
          search_scope = (\<lambda>s. None), search_term = (\<lambda>t s. False),
          split_sentences = (\<lambda>s. [s]), json_loads = (\<lambda>s. None :: unit json option),
          py_repr = (\<lambda>v. []), float_is_zero = (\<lambda>f. True)\<rparr>"]
  by (simp add: extract_summary_rules_def py_slice_to_def clamp_index_def splitlines_def
      strip_def lstrip_def rstrip_def is_space_def is_linebreak_def strip_chars_def
      key_terms_def opt_sval_def Let_def)

text \<open>
  C1, as stated, fails: a failed completion is not turned into the empty string.
\<close>

theorem complete_failure_counterexample:
  "complete (\<lambda>r. Raises) ''key'' ''llama3-70b-8192'' ''prompt'' 0 600 \<noteq> []"
  by (simp add: complete_def)

section \<open>Degraded retrieval\<close>

lemma ranked_mset: "mset (ranked_by_length cs) = mset cs"
  by (simp add: ranked_by_length_def query_def length_fallback_def py_slice_to_def
      clamp_index_def)

lemma ranked_sorted:
  "sorted_wrt (\<lambda>a b. length (chunk_text a) \<ge> length (chunk_text b)) (ranked_by_length cs)"
proof -
  have "sorted (map (\<lambda>c. length (chunk_text c)) (sort_key (\<lambda>c. length (chunk_text c)) (rev cs)))"
    by simp
  then have "sorted_wrt (\<lambda>a b. length (chunk_text a) \<le> length (chunk_text b))
       (sort_key (\<lambda>c. length (chunk_text c)) (rev cs))"
    by (simp add: sorted_map)
  then show ?thesis
    unfolding ranked_by_length_def by (simp add: sorted_wrt_rev)
qed

text \<open>Stability: chunks of one length keep their original order.\<close>

lemma ranked_stable:
  "filter (\<lambda>c. length (chunk_text c) = n) (ranked_by_length cs)
     = filter (\<lambda>c. length (chunk_text c) = n) cs"
proof -
  have "filter (\<lambda>c. length (chunk_text c) = n) (sort_key (\<lambda>c. length (chunk_text c)) (rev cs))
      = filter (\<lambda>c. length (chunk_text c) = n) (rev cs)"
    by (rule sort_key_stable)
  then show ?thesis
    unfolding ranked_by_length_def by (simp add: rev_filter[symmetric])
qed

text \<open>
  C8 (as amended). When the similarity capability raises, \<open>SimpleRetriever.query\<close> (for
  \<open>top_k \<ge> 0\<close>) returns the first \<open>top_k\<close> chunks of the ranking by descending text
  length, all of them when there are fewer, each paired with the score 1.0. The ranking is
  a rearrangement of the retriever's chunks, longest first, chunks of equal length in their
  original order. The result carries nothing but these pairs: the score 1.0 is the only
  mark of the fallback, and a similarity search can return it too.
\<close>

theorem query_degraded:
  assumes "search r q top_k = Raises" and "0 \<le> top_k"
  shows "map fst (query search r q top_k) = take (nat top_k) (ranked_by_length (self_chunks r)) \<and>
         (\<forall>(c, score) \<in> set (query search r q top_k). score = 1) \<and>
         length (query search r q top_k) = min (nat top_k) (length (self_chunks r)) \<and>
         mset (ranked_by_length (self_chunks r)) = mset (self_chunks r) \<and>
         sorted_wrt (\<lambda>a b. length (chunk_text a) \<ge> length (chunk_text b))
           (ranked_by_length (self_chunks r)) \<and>
         (\<forall>n. filter (\<lambda>c. length (chunk_text c) = n) (ranked_by_length (self_chunks r))
               = filter (\<lambda>c. length (chunk_text c) = n) (self_chunks r))"
proof -
  have q: "query search r q top_k
      = map (\<lambda>c. (c, 1)) (take (nat top_k) (ranked_by_length (self_chunks r)))"
    using assms
    by (simp add: query_def length_fallback_def py_slice_to_def clamp_index_def min_def)
  have len: "length (ranked_by_length (self_chunks r)) = length (self_chunks r)"
    by (simp add: ranked_by_length_def query_def length_fallback_def py_slice_to_def
      clamp_index_def)
  show ?thesis
    unfolding q using ranked_mset ranked_sorted ranked_stable len
    by (auto simp: comp_def)
qed

theorem query_degraded_witness:
  "map fst (query (\<lambda>r q k. Raises)
      \<lparr>self_chunks = [\<lparr>chunk_id = ''a'', page = 1, chunk_text = ''xx'', section_hint = None\<rparr>,
                      \<lparr>chunk_id = ''b'', page = 1, chunk_text = ''xxx'', section_hint = None\<rparr>,
                      \<lparr>chunk_id = ''c'', page = 2, chunk_text = ''yy'', section_hint = None\<rparr>],
        self_emb_provider = ''openai'', self_emb_model = ''text-embedding-3-small'',
        self_openai_api_key = None, self_embeddings = ([] :: real list list)\<rparr> ''q'' 2)
     = [\<lparr>chunk_id = ''b'', page = 1, chunk_text = ''xxx'', section_hint = None\<rparr>,
        \<lparr>chunk_id = ''a'', page = 1, chunk_text = ''xx'', section_hint = None\<rparr>] \<and>
   map snd (query (\<lambda>r q k. Raises)
      \<lparr>self_chunks = [\<lparr>chunk_id = ''a'', page = 1, chunk_text = ''xx'', section_hint = None\<rparr>,
                      \<lparr>chunk_id = ''b'', page = 1, chunk_text = ''xxx'', section_hint = None\<rparr>,
                      \<lparr>chunk_id = ''c'', page = 2, chunk_text = ''yy'', section_hint = None\<rparr>],
        self_emb_provider = ''openai'', self_emb_model = ''text-embedding-3-small'',
        self_openai_api_key = None, self_embeddings = ([] :: real list list)\<rparr> ''q'' 2)
     = [1, 1]"
  using query_degraded
    [of "\<lambda>r q k. Raises"
      "\<lparr>self_chunks = [\<lparr>chunk_id = ''a'', page = 1, chunk_text = ''xx'', section_hint = None\<rparr>,
                      \<lparr>chunk_id = ''b'', page = 1, chunk_text = ''xxx'', section_hint = None\<rparr>,
                      \<lparr>chunk_id = ''c'', page = 2, chunk_text = ''yy'', section_hint = None\<rparr>],
        self_emb_provider = ''openai'', self_emb_model = ''text-embedding-3-small'',
        self_openai_api_key = None, self_embeddings = ([] :: real list list)\<rparr>" "''q''" 2]
  by (simp add: ranked_by_length_def query_def length_fallback_def py_slice_to_def
      clamp_index_def)

text \<open>
  C8, as stated, fails in its last part: on a retriever of one chunk, a similarity search
  that finds this chunk with score 1.0 and a search that raises give the same result, so
  the fallback cannot be told from a genuine result.
\<close>

theorem query_degraded_counterexample:
  "query (\<lambda>r q k. Returns [(0, 1)])
      \<lparr>self_chunks = [\<lparr>chunk_id = ''a'', page = 1, chunk_text = ''xx'', section_hint = None\<rparr>],
        self_emb_provider = ''openai'', self_emb_model = ''text-embedding-3-small'',
        self_openai_api_key = None, self_embeddings = [[1 :: real]]\<rparr> ''q'' 1
   = query (\<lambda>r q k. Raises)
      \<lparr>self_chunks = [\<lparr>chunk_id = ''a'', page = 1, chunk_text = ''xx'', section_hint = None\<rparr>],
        self_emb_provider = ''openai'', self_emb_model = ''text-embedding-3-small'',
        self_openai_api_key = None, self_embeddings = [[1 :: real]]\<rparr> ''q'' 1 \<and>
   query (\<lambda>r q k. Raises)
      \<lparr>self_chunks = [\<lparr>chunk_id = ''a'', page = 1, chunk_text = ''xx'', section_hint = None\<rparr>],
        self_emb_provider = ''openai'', self_emb_model = ''text-embedding-3-small'',
        self_openai_api_key = None, self_embeddings = [[1 :: real]]\<rparr> ''q'' 1
   = [(\<lparr>chunk_id = ''a'', page = 1, chunk_text = ''xx'', section_hint = None\<rparr>, 1)]"
  by (simp add: query_def length_fallback_def ranked_by_length_def py_slice_to_def
      clamp_index_def py_index_def)

section \<open>Saving and loading the index\<close>

lemma paths_differ: "chunks_path index_root tender_id \<noteq> index_path index_root tender_id"
  by (simp add: chunks_path_def index_path_def)

text \<open>
  C6 (as amended). With the index library importable, \<open>load_index\<close> raises
  FileNotFoundError exactly when the chunk-list file or the index file is missing; an
  empty stored chunk list is returned as such. When both files hold a chunk list and an
  index, it returns exactly that pair: the two lengths are not compared.
\<close>

theorem load_index_not_found:
  assumes "faiss"
  shows "(load_index faiss fs index_root tender_id = Inl FileNotFoundError \<longleftrightarrow>
            fs (chunks_path index_root tender_id) = None \<or>
            fs (index_path index_root tender_id) = None) \<and>
         (\<forall>chunks index.
            fs (chunks_path index_root tender_id) = Some (ChunkList chunks) \<and>
            fs (index_path index_root tender_id) = Some (IndexFile index) \<longrightarrow>
            load_index faiss fs index_root tender_id = Inr (chunks, index))"
  using assms
  by (auto simp: load_index_def split: option.splits stored.splits)

theorem load_index_not_found_witness:
  "load_index True (Map.empty :: real store) ''data/index'' ''t/1'' = Inl FileNotFoundError \<and>
   load_index True
     [chunks_path ''data/index'' ''t/1'' \<mapsto> ChunkList [],
      index_path ''data/index'' ''t/1'' \<mapsto> IndexFile \<lparr>dim = 1, vectors = ([] :: real list list)\<rparr>]
     ''data/index'' ''t/1''
   = Inr ([], \<lparr>dim = 1, vectors = []\<rparr>)"
  using load_index_not_found [of True "Map.empty :: real store" "''data/index''" "''t/1''"]
    load_index_not_found [of True
      "[chunks_path ''data/index'' ''t/1'' \<mapsto> ChunkList [],
        index_path ''data/index'' ''t/1'' \<mapsto>
          IndexFile \<lparr>dim = 1, vectors = ([] :: real list list)\<rparr>]"
      "''data/index''" "''t/1''"]
  by (simp add: paths_differ)

text \<open>
  C6, as stated, fails: a stored chunk list of two chunks beside an index of one vector
  is loaded and returned.
\<close>

theorem load_index_mismatch_counterexample:
  "load_index True
     [chunks_path ''data/index'' ''t1'' \<mapsto>
        ChunkList [\<lparr>chunk_id = ''p1_0'', page = 1, chunk_text = ''a'', section_hint = None\<rparr>,
                   \<lparr>chunk_id = ''p2_0'', page = 2, chunk_text = ''b'', section_hint = None\<rparr>],
      index_path ''data/index'' ''t1'' \<mapsto> IndexFile \<lparr>dim = 1, vectors = [[1 :: real]]\<rparr>]
     ''data/index'' ''t1''
   = Inr ([\<lparr>chunk_id = ''p1_0'', page = 1, chunk_text = ''a'', section_hint = None\<rparr>,
           \<lparr>chunk_id = ''p2_0'', page = 2, chunk_text = ''b'', section_hint = None\<rparr>],
          \<lparr>dim = 1, vectors = [[1]]\<rparr>)"
  by (simp add: load_index_def paths_differ)

text \<open>
  C7. \<open>save_index\<close> itself never compares the number of vectors with the number of
  chunks: with the index library importable and the embeddings a non-empty list of rows of
  one length, a call with differing counts writes the chunk list with every given chunk
  and the index with every given vector, and raises nothing; this is the call the ingest
  endpoint of app.py makes. The batch build of scripts/build\_kb\_index.py compares the
  counts first: on the same input it raises SystemExit and writes nothing.
\<close>

theorem save_index_mismatch_persisted:
  assumes "faiss" and "matrix_dim embeddings = Inr d"
    and "length embeddings \<noteq> length chunks"
  shows "save_index faiss normalize_L2 fs index_root tender_id chunks embeddings
           = (fs(chunks_path index_root tender_id \<mapsto> ChunkList chunks,
                 index_path index_root tender_id \<mapsto>
                   IndexFile \<lparr>dim = d, vectors = map normalize_L2 embeddings\<rparr>),
              None) \<and>
         load_index faiss
             (fst (save_index faiss normalize_L2 fs index_root tender_id chunks embeddings))
             index_root tender_id
           = Inr (chunks, \<lparr>dim = d, vectors = map normalize_L2 embeddings\<rparr>) \<and>
         build_kb_index_save faiss normalize_L2 fs index_root tender_id chunks embeddings
           = (fs, Some SystemExit)"
  using assms paths_differ [of index_root tender_id]
  by (simp add: save_index_def load_index_def build_kb_index_save_def)

theorem save_index_mismatch_persisted_witness:
  "save_index True (\<lambda>v. v) Map.empty ''data/index'' ''t1''
     [\<lparr>chunk_id = ''p1_0'', page = 1, chunk_text = ''a'', section_hint = None\<rparr>,
      \<lparr>chunk_id = ''p2_0'', page = 2, chunk_text = ''b'', section_hint = None\<rparr>]
     [[1 :: real]]
   = ([chunks_path ''data/index'' ''t1'' \<mapsto>
         ChunkList [\<lparr>chunk_id = ''p1_0'', page = 1, chunk_text = ''a'', section_hint = None\<rparr>,
                    \<lparr>chunk_id = ''p2_0'', page = 2, chunk_text = ''b'', section_hint = None\<rparr>],
       index_path ''data/index'' ''t1'' \<mapsto> IndexFile \<lparr>dim = 1, vectors = [[1]]\<rparr>],
      None) \<and>
   build_kb_index_save True (\<lambda>v. v) (Map.empty :: real store) ''data/index'' ''t1''
     [\<lparr>chunk_id = ''p1_0'', page = 1, chunk_text = ''a'', section_hint = None\<rparr>,
      \<lparr>chunk_id = ''p2_0'', page = 2, chunk_text = ''b'', section_hint = None\<rparr>]
     [[1 :: real]]
   = (Map.empty, Some SystemExit)"
  using save_index_mismatch_persisted
    [of True "[[1 :: real]]" 1
        "[\<lparr>chunk_id = ''p1_0'', page = 1, chunk_text = ''a'', section_hint = None\<rparr>,
          \<lparr>chunk_id = ''p2_0'', page = 2, chunk_text = ''b'', section_hint = None\<rparr>]"
        "\<lambda>v. v" Map.empty "''data/index''" "''t1''"]
  by (simp add: matrix_dim_def)

section \<open>Degenerate documents\<close>

text \<open>
  C5 (as amended). When \<open>_docling_to_json\<close> gives \<open>None\<close>, \<open>docling_to_chunks\<close> returns
  exactly one chunk: id \<open>dl_0\<close>, page 1, no section hint, its text the whole \<open>str(doc)\<close>. An
  empty parsed structure (an empty dict or an empty list) gives the empty chunk list.
\<close>

theorem docling_to_chunks_degenerate:
  "(docling_to_json l doc = JNull \<longrightarrow>
      docling_to_chunks l doc max_chars overlap
        = Inr [\<lparr>chunk_id = ''dl_0'', page = 1, chunk_text = str_doc doc, section_hint = None\<rparr>]) \<and>
   (docling_to_json l doc = JDict [] \<or> docling_to_json l doc = JList [] \<longrightarrow>
      docling_to_chunks l doc max_chars overlap = Inr [])"
  by (auto simp: docling_to_chunks_def merge_spans_def final_flush_def initial_state_def flush_def
      figure_span_def dict_get_def text_span_def table_span_def iter_text_nodes.simps)

theorem docling_to_chunks_degenerate_witness:
  "docling_to_chunks
     \<lparr>search_fence = (\<lambda>s. None), search_page_toc = (\<lambda>s. False),
      search_issuer = (\<lambda>s. None), search_emd = (\<lambda>s. None),
      search_duration = (\<lambda>s. None), search_location = (\<lambda>s. None),
      search_scope = (\<lambda>s. None), search_term = (\<lambda>t s. False),
      split_sentences = (\<lambda>s. [s]), json_loads = (\<lambda>s. None :: unit json option),
      py_repr = (\<lambda>v. []), float_is_zero = (\<lambda>f. True)\<rparr>
     \<lparr>to_json = None, model_dump = Some Raises, dumps_loads = None, str_doc = ''<Doc>''\<rparr>
     2500 200
   = Inr [\<lparr>chunk_id = ''dl_0'', page = 1, chunk_text = ''<Doc>'', section_hint = None\<rparr>]"
  using docling_to_chunks_degenerate
    [of "\<lparr>search_fence = (\<lambda>s. None), search_page_toc = (\<lambda>s. False),
          search_issuer = (\<lambda>s. None), search_emd = (\<lambda>s. None),
          search_duration = (\<lambda>s. None), search_location = (\<lambda>s. None),
          search_scope = (\<lambda>s. None), search_term = (\<lambda>t s. False),
          split_sentences = (\<lambda>s. [s]), json_loads = (\<lambda>s. None :: unit json option),
          py_repr = (\<lambda>v. []), float_is_zero = (\<lambda>f. True)\<rparr>"
        "\<lparr>to_json = None, model_dump = Some Raises, dumps_loads = None, str_doc = ''<Doc>''\<rparr>"
        2500 200]
  by (simp add: docling_to_json_def via_to_json_def via_model_dump_def)

text \<open>
  C5, as stated, fails: a document whose \<open>to_json\<close> returns the empty dict gives no chunk.
\<close>

theorem docling_to_chunks_empty_counterexample:
  "docling_to_chunks
     \<lparr>search_fence = (\<lambda>s. None), search_page_toc = (\<lambda>s. False),
      search_issuer = (\<lambda>s. None), search_emd = (\<lambda>s. None),
      search_duration = (\<lambda>s. None), search_location = (\<lambda>s. None),
      search_scope = (\<lambda>s. None), search_term = (\<lambda>t s. False),
      split_sentences = (\<lambda>s. [s]), json_loads = (\<lambda>s. None :: unit json option),
      py_repr = (\<lambda>v. []), float_is_zero = (\<lambda>f. True)\<rparr>
     \<lparr>to_json = Some (Returns (JDict [])), model_dump = None, dumps_loads = None,
      str_doc = ''<Doc>''\<rparr>
     2500 200
   = Inr []"
  by (simp add: docling_to_chunks_def docling_to_json_def via_to_json_def merge_spans_def final_flush_def
      initial_state_def flush_def figure_span_def dict_get_def text_span_def table_span_def
      iter_text_nodes.simps)

section \<open>Invariants of the assembled chunks\<close>

lemma docling_to_chunks_cases:
  assumes "docling_to_chunks l doc max_chars overlap = Inr cs"
  shows "(docling_to_json l doc = JNull \<and>
            cs = [\<lparr>chunk_id = ''dl_0'', page = 1, chunk_text = str_doc doc, section_hint = None\<rparr>]) \<or>
         (docling_to_json l doc \<noteq> JNull \<and>
            (\<exists>yielded st. iter_text_nodes l (docling_to_json l doc) [] = Inr (yielded, st) \<and>
               cs = merge_spans (filter (\<lambda>(t, p, path). t \<noteq> []) yielded) max_chars overlap))"
proof (cases "docling_to_json l doc = JNull")
  case True
  with assms show ?thesis by (simp add: docling_to_chunks_def)
next
  case False
  then have "docling_to_chunks l doc max_chars overlap =
      (case iter_text_nodes l (docling_to_json l doc) [] of
         Inl e \<Rightarrow> Inl e
       | Inr (yielded, section_stack) \<Rightarrow>
           Inr (merge_spans (filter (\<lambda>(t, p, path). t \<noteq> []) yielded) max_chars overlap))"
    by (cases "docling_to_json l doc") (simp_all add: docling_to_chunks_def)
  with assms False show ?thesis by (auto split: sum.splits)
qed

text \<open>
  C4 (as amended). For a chunk list returned by \<open>docling_to_chunks\<close>: the ids are pairwise
  distinct; every text is non-empty after trimming, unless the document is the degenerate
  one with a blank \<open>str(doc)\<close>; every page is at least 1 provided no span of the tree
  carries a negative page. For \<open>simple_chunk_pages\<close> with \<open>0 \<le> overlap < max_chars\<close>: a
  chunk list is returned, every text is non-empty (it may be blank), every page is one of
  the given page numbers, and the ids are pairwise distinct when the given page numbers are.
\<close>

theorem assembler_chunk_invariants:
  "(docling_to_chunks l doc max_chars overlap = Inr cs \<longrightarrow>
      distinct (map chunk_id cs) \<and>
      ((docling_to_json l doc = JNull \<longrightarrow> strip (str_doc doc) \<noteq> []) \<longrightarrow>
         (\<forall>c \<in> set cs. strip (chunk_text c) \<noteq> [])) \<and>
      ((\<forall>yielded st. iter_text_nodes l (docling_to_json l doc) [] = Inr (yielded, st) \<longrightarrow>
           (\<forall>sp \<in> set yielded. \<forall>n. fst (snd sp) = Some n \<longrightarrow> 0 \<le> n)) \<longrightarrow>
         (\<forall>c \<in> set cs. 1 \<le> page c))) \<and>
   (0 \<le> overlap' \<and> overlap' < max_chars' \<longrightarrow>
      (\<exists>cs'. simple_chunk_pages pages max_chars' overlap' = Some cs' \<and>
         (\<forall>c \<in> set cs'. chunk_text c \<noteq> [] \<and> page c \<in> fst ` set pages) \<and>
         (distinct (map fst pages) \<longrightarrow> distinct (map chunk_id cs'))))"
proof (intro conjI impI)
  assume r: "docling_to_chunks l doc max_chars overlap = Inr cs"
  from docling_to_chunks_cases[OF r] show "distinct (map chunk_id cs)"
    using dl_ids_distinct[OF merge_spans_ids] by auto
next
  assume r: "docling_to_chunks l doc max_chars overlap = Inr cs"
    and b: "docling_to_json l doc = JNull \<longrightarrow> strip (str_doc doc) \<noteq> []"
  from docling_to_chunks_cases[OF r] show "\<forall>c \<in> set cs. strip (chunk_text c) \<noteq> []"
  proof
    assume "docling_to_json l doc = JNull \<and>
      cs = [\<lparr>chunk_id = ''dl_0'', page = 1, chunk_text = str_doc doc, section_hint = None\<rparr>]"
    with b show ?thesis by simp
  next
    assume "docling_to_json l doc \<noteq> JNull \<and>
      (\<exists>yielded st. iter_text_nodes l (docling_to_json l doc) [] = Inr (yielded, st) \<and>
         cs = merge_spans (filter (\<lambda>(t, p, path). t \<noteq> []) yielded) max_chars overlap)"
    then obtain spans where "cs = merge_spans spans max_chars overlap" by blast
    with merge_spans_trimmed[of spans max_chars overlap] show ?thesis
      by (simp add: trimmed_def)
  qed
next
  assume r: "docling_to_chunks l doc max_chars overlap = Inr cs"
    and p: "\<forall>yielded st. iter_text_nodes l (docling_to_json l doc) [] = Inr (yielded, st) \<longrightarrow>
           (\<forall>sp \<in> set yielded. \<forall>n. fst (snd sp) = Some n \<longrightarrow> 0 \<le> n)"
  from docling_to_chunks_cases[OF r] show "\<forall>c \<in> set cs. 1 \<le> page c"
  proof
    assume "docling_to_json l doc = JNull \<and>
      cs = [\<lparr>chunk_id = ''dl_0'', page = 1, chunk_text = str_doc doc, section_hint = None\<rparr>]"
    then show ?thesis by simp
  next
    assume "docling_to_json l doc \<noteq> JNull \<and>
      (\<exists>yielded st. iter_text_nodes l (docling_to_json l doc) [] = Inr (yielded, st) \<and>
         cs = merge_spans (filter (\<lambda>(t, p, path). t \<noteq> []) yielded) max_chars overlap)"
    then obtain yielded st where y: "iter_text_nodes l (docling_to_json l doc) [] = Inr (yielded, st)"
      "cs = merge_spans (filter (\<lambda>(t, p, path). t \<noteq> []) yielded) max_chars overlap" by blast
    from p y(1) have "\<forall>sp \<in> set yielded. \<forall>n. fst (snd sp) = Some n \<longrightarrow> 0 \<le> n"
      by blast
    then have "\<forall>sp \<in> set (filter (\<lambda>(t, p, path). t \<noteq> []) yielded).
        \<forall>n. fst (snd sp) = Some n \<longrightarrow> 0 \<le> n" by fastforce
    from merge_spans_pages[OF this] y(2) show ?thesis by simp
  qed
next
  assume "0 \<le> overlap' \<and> overlap' < max_chars'"
  then have "0 \<le> overlap'" "overlap' < max_chars'" by simp_all
  from simple_chunk_pages_result[OF this]
  show "\<exists>cs'. simple_chunk_pages pages max_chars' overlap' = Some cs' \<and>
         (\<forall>c \<in> set cs'. chunk_text c \<noteq> [] \<and> page c \<in> fst ` set pages) \<and>
         (distinct (map fst pages) \<longrightarrow> distinct (map chunk_id cs'))" .
qed

theorem assembler_chunk_invariants_witness:
  "docling_to_chunks
     \<lparr>search_fence = (\<lambda>s. None), search_page_toc = (\<lambda>s. False),
      search_issuer = (\<lambda>s. None), search_emd = (\<lambda>s. None),
      search_duration = (\<lambda>s. None), search_location = (\<lambda>s. None),
      search_scope = (\<lambda>s. None), search_term = (\<lambda>t s. False),
      split_sentences = (\<lambda>s. [s]), json_loads = (\<lambda>s. None :: unit json option),
      py_repr = (\<lambda>v. []), float_is_zero = (\<lambda>f. True)\<rparr>
     \<lparr>to_json = Some (Returns (JDict [(''title'', JStr ''Intro''), (''text'', JStr '' hello ''),
                                        (''page'', JInt 3)])),
      model_dump = None, dumps_loads = None, str_doc = ''<Doc>''\<rparr>
     2500 200
   = Inr [\<lparr>chunk_id = ''dl_0_0'', page = 3, chunk_text = ''hello'',
           section_hint = Some ''Intro''\<rparr>] \<and>
   distinct (map chunk_id [\<lparr>chunk_id = ''dl_0_0'', page = 3, chunk_text = ''hello'',
           section_hint = Some ''Intro''\<rparr>]) \<and>
   strip (chunk_text \<lparr>chunk_id = ''dl_0_0'', page = 3, chunk_text = ''hello'',
           section_hint = Some ''Intro''\<rparr>) \<noteq> [] \<and>
   1 \<le> page \<lparr>chunk_id = ''dl_0_0'', page = 3, chunk_text = ''hello'',
           section_hint = Some ''Intro''\<rparr> \<and>
   (\<exists>cs'. simple_chunk_pages [(1, ''abcdefgh''), (2, ''xy'')] 3 1 = Some cs' \<and>
      distinct (map chunk_id cs'))"
proof -
  have ev: "docling_to_chunks
     \<lparr>search_fence = (\<lambda>s. None), search_page_toc = (\<lambda>s. False),
      search_issuer = (\<lambda>s. None), search_emd = (\<lambda>s. None),
      search_duration = (\<lambda>s. None), search_location = (\<lambda>s. None),
      search_scope = (\<lambda>s. None), search_term = (\<lambda>t s. False),
      split_sentences = (\<lambda>s. [s]), json_loads = (\<lambda>s. None :: unit json option),
      py_repr = (\<lambda>v. []), float_is_zero = (\<lambda>f. True)\<rparr>
     \<lparr>to_json = Some (Returns (JDict [(''title'', JStr ''Intro''), (''text'', JStr '' hello ''),
                                        (''page'', JInt 3)])),
      model_dump = None, dumps_loads = None, str_doc = ''<Doc>''\<rparr>
     2500 200
   = Inr [\<lparr>chunk_id = ''dl_0_0'', page = 3, chunk_text = ''hello'',
           section_hint = Some ''Intro''\<rparr>]"
    by (simp add: docling_to_chunks_def docling_to_json_def via_to_json_def
        iter_text_nodes.simps figure_span_def text_span_def table_span_def dict_get_def
        dict_has_def as_int_def section_path_def strip_def lstrip_def rstrip_def is_space_def
        merge_spans_def final_flush_def initial_state_def merge_step_def on_empty_buf_def on_path_change_def
        append_span_def on_full_def flush_def page_or_1_def str_nat.simps digit_char_def Let_def)
  have raw: "docling_to_json
        \<lparr>search_fence = (\<lambda>s. None), search_page_toc = (\<lambda>s. False),
          search_issuer = (\<lambda>s. None), search_emd = (\<lambda>s. None),
          search_duration = (\<lambda>s. None), search_location = (\<lambda>s. None),
          search_scope = (\<lambda>s. None), search_term = (\<lambda>t s. False),
          split_sentences = (\<lambda>s. [s]), json_loads = (\<lambda>s. None :: unit json option),
          py_repr = (\<lambda>v. []), float_is_zero = (\<lambda>f. True)\<rparr>
        \<lparr>to_json = Some (Returns (JDict [(''title'', JStr ''Intro''), (''text'', JStr '' hello ''),
                                        (''page'', JInt 3)])),
          model_dump = None, dumps_loads = None, str_doc = ''<Doc>''\<rparr>
      = JDict [(''title'', JStr ''Intro''), (''text'', JStr '' hello ''), (''page'', JInt 3)]"
    by (simp add: docling_to_json_def via_to_json_def)
  have walk: "iter_text_nodes
        \<lparr>search_fence = (\<lambda>s. None), search_page_toc = (\<lambda>s. False),
          search_issuer = (\<lambda>s. None), search_emd = (\<lambda>s. None),
          search_duration = (\<lambda>s. None), search_location = (\<lambda>s. None),
          search_scope = (\<lambda>s. None), search_term = (\<lambda>t s. False),
          split_sentences = (\<lambda>s. [s]), json_loads = (\<lambda>s. None :: unit json option),
          py_repr = (\<lambda>v. []), float_is_zero = (\<lambda>f. True)\<rparr>
        (JDict [(''title'', JStr ''Intro''), (''text'', JStr '' hello ''), (''page'', JInt 3)]) []
      = Inr ([(''hello'', Some 3, Some ''Intro'')], [])"
    by (simp add: iter_text_nodes.simps figure_span_def text_span_def table_span_def dict_get_def
        dict_has_def as_int_def section_path_def strip_def lstrip_def rstrip_def is_space_def
        Let_def)
  from assembler_chunk_invariants
    [of "\<lparr>search_fence = (\<lambda>s. None), search_page_toc = (\<lambda>s. False),
          search_issuer = (\<lambda>s. None), search_emd = (\<lambda>s. None),
          search_duration = (\<lambda>s. None), search_location = (\<lambda>s. None),
          search_scope = (\<lambda>s. None), search_term = (\<lambda>t s. False),
          split_sentences = (\<lambda>s. [s]), json_loads = (\<lambda>s. None :: unit json option),
          py_repr = (\<lambda>v. []), float_is_zero = (\<lambda>f. True)\<rparr>"
        "\<lparr>to_json = Some (Returns (JDict [(''title'', JStr ''Intro''), (''text'', JStr '' hello ''),
                                        (''page'', JInt 3)])),
          model_dump = None, dumps_loads = None, str_doc = ''<Doc>''\<rparr>"
        2500 200
        "[\<lparr>chunk_id = ''dl_0_0'', page = 3, chunk_text = ''hello'',
           section_hint = Some ''Intro''\<rparr>]"
        1 3 "[(1, ''abcdefgh''), (2, ''xy'')]"]
    ev
  have "distinct (map chunk_id [\<lparr>chunk_id = ''dl_0_0'', page = 3, chunk_text = ''hello'',
           section_hint = Some ''Intro''\<rparr>]) \<and>
      strip (chunk_text \<lparr>chunk_id = ''dl_0_0'', page = 3, chunk_text = ''hello'',
           section_hint = Some ''Intro''\<rparr>) \<noteq> [] \<and>
      1 \<le> page \<lparr>chunk_id = ''dl_0_0'', page = 3, chunk_text = ''hello'',
           section_hint = Some ''Intro''\<rparr> \<and>
      (\<exists>cs'. simple_chunk_pages [(1, ''abcdefgh''), (2, ''xy'')] 3 1 = Some cs' \<and>
        distinct (map chunk_id cs'))"
    unfolding raw walk by auto
  with ev show ?thesis by blast
qed

text \<open>
  C4, as stated, fails: a page holding only blanks gives a chunk that is empty after
  trimming, and a negative page number in the tree is kept as the chunk's page.
\<close>

theorem assembler_chunk_invariants_counterexample:
  "simple_chunk_pages [(1, ''  '')] 2000 200
     = Some [\<lparr>chunk_id = ''p1_0'', page = 1, chunk_text = ''  '', section_hint = None\<rparr>] \<and>
   strip ''  '' = [] \<and>
   docling_to_chunks
     \<lparr>search_fence = (\<lambda>s. None), search_page_toc = (\<lambda>s. False),
      search_issuer = (\<lambda>s. None), search_emd = (\<lambda>s. None),
      search_duration = (\<lambda>s. None), search_location = (\<lambda>s. None),
      search_scope = (\<lambda>s. None), search_term = (\<lambda>t s. False),
      split_sentences = (\<lambda>s. [s]), json_loads = (\<lambda>s. None :: unit json option),
      py_repr = (\<lambda>v. []), float_is_zero = (\<lambda>f. True)\<rparr>
     \<lparr>to_json = Some (Returns (JDict [(''text'', JStr ''abc''), (''page'', JInt (- 2))])),
      model_dump = None, dumps_loads = None, str_doc = ''<Doc>''\<rparr>
     2500 200
   = Inr [\<lparr>chunk_id = ''dl_0_0'', page = - 2, chunk_text = ''abc'', section_hint = None\<rparr>]"
proof (intro conjI)
  show "simple_chunk_pages [(1, ''  '')] 2000 200
     = Some [\<lparr>chunk_id = ''p1_0'', page = 1, chunk_text = ''  '', section_hint = None\<rparr>]"
    by (simp add: simple_chunk_pages_def window_loop.simps window_end_def window_chunk_def
        py_slice_def clamp_index_def str_int_def str_nat.simps digit_char_def)
  show "strip ''  '' = []"
    by (simp add: strip_def lstrip_def rstrip_def is_space_def)
  show "docling_to_chunks
     \<lparr>search_fence = (\<lambda>s. None), search_page_toc = (\<lambda>s. False),
      search_issuer = (\<lambda>s. None), search_emd = (\<lambda>s. None),
      search_duration = (\<lambda>s. None), search_location = (\<lambda>s. None),
      search_scope = (\<lambda>s. None), search_term = (\<lambda>t s. False),
      split_sentences = (\<lambda>s. [s]), json_loads = (\<lambda>s. None :: unit json option),
      py_repr = (\<lambda>v. []), float_is_zero = (\<lambda>f. True)\<rparr>
     \<lparr>to_json = Some (Returns (JDict [(''text'', JStr ''abc''), (''page'', JInt (- 2))])),
      model_dump = None, dumps_loads = None, str_doc = ''<Doc>''\<rparr>
     2500 200
   = Inr [\<lparr>chunk_id = ''dl_0_0'', page = - 2, chunk_text = ''abc'', section_hint = None\<rparr>]"
    by (simp add: docling_to_chunks_def docling_to_json_def via_to_json_def
        iter_text_nodes.simps figure_span_def text_span_def table_span_def dict_get_def
        dict_has_def as_int_def section_path_def strip_def lstrip_def rstrip_def is_space_def
        merge_spans_def final_flush_def initial_state_def merge_step_def on_empty_buf_def on_path_change_def
        append_span_def on_full_def flush_def page_or_1_def str_nat.simps digit_char_def Let_def)
qed

section \<open>Number of chunks of one section\<close>

text \<open>
  C2 (as amended). Take spans that all share one section path, with non-empty texts that
  do not end in whitespace and are at most \<open>longest\<close> characters long, \<open>0 < max_chars\<close>
  and \<open>overlap < max_chars\<close>; let \<open>L\<close> be the total length of the span texts and \<open>n\<close> the
  number of chunks. The loop flushes whenever the buffered count, the carried tail
  included, reaches \<open>max_chars\<close>, and never splits a span. Hence:

  \<^item> without overlap (\<open>overlap \<le> 0\<close>), \<open>n\<close> lies between \<open>ceil(L / (max_chars + longest - 1))\<close>
    and \<open>ceil(L / max_chars)\<close>;

  \<^item> with overlap and at least one span, there is a chunk, \<open>n\<close> chunks need
    \<open>max_chars + (n - 2) * (max_chars - overlap) \<le> L\<close> when \<open>n \<ge> 2\<close>, and
    \<open>L < max_chars + (n - 1) * (max_chars - overlap + longest - 1)\<close>;

  \<^item> in the boundary case \<open>L = max_chars\<close> the chunks are the trimmed join of all the
    texts, alone when \<open>overlap \<le> 0\<close>, and followed by the trimmed tail of \<open>overlap\<close>
    characters of that join when \<open>overlap > 0\<close>: two chunks.
\<close>

theorem merge_spans_one_section:
  assumes "\<forall>sp \<in> set spans. snd (snd sp) = path \<and> fst sp \<noteq> [] \<and> \<not> is_space (last (fst sp)) \<and>
             length (fst sp) \<le> longest"
    and "0 < max_chars" and "overlap < max_chars"
  shows "(overlap \<le> 0 \<longrightarrow>
            length (merge_spans spans max_chars overlap)
              \<le> (sum_list (map (\<lambda>sp. length (fst sp)) spans) + nat max_chars - 1) div nat max_chars \<and>
            sum_list (map (\<lambda>sp. length (fst sp)) spans)
              \<le> length (merge_spans spans max_chars overlap) * (nat max_chars + longest - 1)) \<and>
         (0 < overlap \<and> spans \<noteq> [] \<longrightarrow>
            1 \<le> length (merge_spans spans max_chars overlap) \<and>
            (2 \<le> length (merge_spans spans max_chars overlap) \<longrightarrow>
               max_chars + (int (length (merge_spans spans max_chars overlap)) - 2)
                   * (max_chars - overlap)
                 \<le> int (sum_list (map (\<lambda>sp. length (fst sp)) spans))) \<and>
            int (sum_list (map (\<lambda>sp. length (fst sp)) spans))
              < max_chars + (int (length (merge_spans spans max_chars overlap)) - 1)
                  * (max_chars - overlap + int longest - 1)) \<and>
         (int (sum_list (map (\<lambda>sp. length (fst sp)) spans)) = max_chars \<longrightarrow>
            map chunk_text (merge_spans spans max_chars overlap)
              = (if 0 < overlap
                 then [strip (join (NL @ NL) (map fst spans)),
                       strip (tail_overlap (join (NL @ NL) (map fst spans)) overlap)]
                 else [strip (join (NL @ NL) (map fst spans))]))"
proof (intro conjI impI)
  let ?L = "sum_list (map (\<lambda>sp. length (fst sp)) spans)"
  let ?n = "length (merge_spans spans max_chars overlap)"
  define m where "m = nat max_chars"
  have m: "max_chars = int m" "0 < m" using assms(2) by (simp_all add: m_def)
  {
    assume ov: "overlap \<le> 0"
    from merge_spans_count_plain(1)[OF assms(2) ov assms(1)] m
    have "int (?n * m) < int (?L + m)" by simp
    then have "?n * m < ?L + m" by linarith
    then have "?n * m \<le> ?L + m - 1" by simp
    then have "?n \<le> (?L + m - 1) div m" using m(2) by (simp add: less_eq_div_iff_mult_less_eq)
    with m show "?n \<le> (?L + nat max_chars - 1) div nat max_chars" by simp
    have "int (m + longest - 1) = max_chars + int longest - 1" using m by simp
    with merge_spans_count_plain(2)[OF assms(2) ov assms(1)]
    have "int ?L \<le> int (?n * (m + longest - 1))" by simp
    then have "?L \<le> ?n * (m + longest - 1)" by linarith
    with m show "?L \<le> ?n * (nat max_chars + longest - 1)" by simp
  }
  {
    assume ov: "0 < overlap \<and> spans \<noteq> []"
    then have o: "0 < overlap" and ne: "spans \<noteq> []" by simp_all
    from merge_spans_count_overlap(1)[OF o assms(3) ne assms(1)] show "1 \<le> ?n" .
    from merge_spans_count_overlap(3)[OF o assms(3) ne assms(1)]
    show "int ?L < max_chars + (int ?n - 1) * (max_chars - overlap + int longest - 1)" .
    assume "2 \<le> ?n"
    with merge_spans_count_overlap(2)[OF o assms(3) ne assms(1)]
    show "max_chars + (int ?n - 2) * (max_chars - overlap) \<le> int ?L" by simp
  }
  {
    assume total: "int ?L = max_chars"
    have "\<forall>sp \<in> set spans. snd (snd sp) = path \<and> fst sp \<noteq> [] \<and> \<not> is_space (last (fst sp))"
      using assms(1) by simp
    from merge_spans_boundary_texts[OF this total assms(2)]
    show "map chunk_text (merge_spans spans max_chars overlap)
              = (if 0 < overlap
                 then [strip (join (NL @ NL) (map fst spans)),
                       strip (tail_overlap (join (NL @ NL) (map fst spans)) overlap)]
                 else [strip (join (NL @ NL) (map fst spans))])" .
  }
qed

theorem merge_spans_one_section_witness:
  "length (merge_spans [(''ab'', Some 1, Some ''A''), (''cd'', Some 1, Some ''A''),
                        (''efg'', Some 2, Some ''A'')] 4 0) = 2 \<and>
   length (merge_spans [(''ab'', Some 1, Some ''A''), (''cd'', Some 1, Some ''A''),
                        (''efg'', Some 2, Some ''A'')] 4 2) = 3 \<and>
   map chunk_text (merge_spans [(''ab'', Some 1, Some ''A''), (''cd'', Some 1, Some ''A'')] 4 0)
     = [''ab'' @ NL @ NL @ ''cd''] \<and>
   map chunk_text (merge_spans [(''ab'', Some 1, Some ''A''), (''cd'', Some 1, Some ''A'')] 4 1)
     = [''ab'' @ NL @ NL @ ''cd'', ''d'']"
  using merge_spans_one_section
      [where spans = "[(''ab'', Some 1, Some ''A''), (''cd'', Some 1, Some ''A''),
                       (''efg'', Some 2, Some ''A'')]"
         and path = "Some ''A''" and longest = 3 and max_chars = 4 and overlap = 0]
    merge_spans_one_section
      [where spans = "[(''ab'', Some 1, Some ''A''), (''cd'', Some 1, Some ''A''),
                       (''efg'', Some 2, Some ''A'')]"
         and path = "Some ''A''" and longest = 3 and max_chars = 4 and overlap = 2]
    merge_spans_one_section
      [where spans = "[(''ab'', Some 1, Some ''A''), (''cd'', Some 1, Some ''A'')]"
         and path = "Some ''A''" and longest = 2 and max_chars = 4 and overlap = 0]
    merge_spans_one_section
      [where spans = "[(''ab'', Some 1, Some ''A''), (''cd'', Some 1, Some ''A'')]"
         and path = "Some ''A''" and longest = 2 and max_chars = 4 and overlap = 1]
  by (simp add: merge_spans_def final_flush_def initial_state_def merge_step_def on_empty_buf_def
      on_path_change_def append_span_def on_full_def flush_def NL_def strip_def lstrip_def
      rstrip_def is_space_def tail_overlap_def py_slice_from_def clamp_index_def)

text \<open>
  C2, as stated, fails. A span is never split: one span of three characters with
  \<open>max_chars = 1\<close> gives one chunk, not three. With overlap the carried tail is flushed
  as a chunk of its own: one span of ten characters with \<open>max_chars = 10\<close> and
  \<open>overlap = 2\<close> gives two chunks, not one.
\<close>

theorem merge_spans_count_counterexample:
  "length (merge_spans [(''abc'', None, None)] 1 0) = 1 \<and>
   (length ''abc'' + nat 1 - 1) div nat 1 = 3 \<and>
   map chunk_text (merge_spans [(''abcdefghij'', Some 1, None)] 10 2) = [''abcdefghij'', ''ij''] \<and>
   int (length ''abcdefghij'') = 10"
  by (simp add: merge_spans_def final_flush_def initial_state_def merge_step_def on_empty_buf_def
      on_path_change_def append_span_def on_full_def flush_def NL_def strip_def lstrip_def
      rstrip_def is_space_def tail_overlap_def py_slice_from_def clamp_index_def)

section \<open>Overlap between consecutive chunks\<close>

text \<open>
  C3 (as amended). Chunk texts of the tree walk are trimmed, the retained tail is cut from
  the untrimmed buffer. Let a pass of the merge loop (on span \<open>sp\<close>, after the spans
  \<open>pre\<close>) reach \<open>max_chars\<close> with \<open>overlap > 0\<close>, the text of \<open>sp\<close> not ending in
  whitespace; it emits chunk \<open>k\<close>. Then a next chunk exists and, provided the trailing
  \<open>overlap\<close> characters of chunk \<open>k\<close> do not begin with whitespace, they are a prefix of
  its text. In the page-window fallback, with \<open>0 < overlap < max_chars\<close>, a window that
  does not end its page is followed by a window whose text begins with the trailing
  \<open>overlap\<close> characters of the first.
\<close>

theorem overlap_carried:
  "(0 < overlap \<and>
    s3 = append_span sp (on_path_change (length pre) sp (on_empty_buf (length pre) sp
           (merge_loop max_chars overlap 0 pre initial_state))) \<and>
    max_chars \<le> int (m_cur_len s3) \<and>
    fst sp \<noteq> [] \<and> \<not> is_space (last (fst sp)) \<and>
    cs = merge_spans (pre @ sp # rest) max_chars overlap \<and> k = length (m_chunks s3) \<and>
    \<not> is_space (hd (tail_overlap (chunk_text (cs ! k)) overlap))
    \<longrightarrow>
      Suc k < length cs \<and>
      chunk_text (cs ! k) = strip (join (NL @ NL) (m_buf s3)) \<and>
      prefix (tail_overlap (chunk_text (cs ! k)) overlap) (chunk_text (cs ! Suc k))) \<and>
   (0 < overlap' \<and> overlap' < max_chars' \<and> 0 \<le> start \<and> start < int (length t) \<and>
    window_end t max_chars' start \<noteq> int (length t)
    \<longrightarrow>
      (\<exists>others. window_loop max_chars' overlap' pn t start cs0
           = Some (cs0 @ window_chunk pn t start (window_end t max_chars' start)
                      # window_chunk pn t (next_start (window_end t max_chars' start) overlap')
                          (window_end t max_chars'
                             (next_start (window_end t max_chars' start) overlap'))
                      # others) \<and>
         prefix (tail_overlap
                   (chunk_text (window_chunk pn t start (window_end t max_chars' start))) overlap')
           (chunk_text (window_chunk pn t (next_start (window_end t max_chars' start) overlap')
              (window_end t max_chars' (next_start (window_end t max_chars' start) overlap'))))))"
proof (intro conjI impI)
  assume a: "0 < overlap \<and>
    s3 = append_span sp (on_path_change (length pre) sp (on_empty_buf (length pre) sp
           (merge_loop max_chars overlap 0 pre initial_state))) \<and>
    max_chars \<le> int (m_cur_len s3) \<and>
    fst sp \<noteq> [] \<and> \<not> is_space (last (fst sp)) \<and>
    cs = merge_spans (pre @ sp # rest) max_chars overlap \<and> k = length (m_chunks s3) \<and>
    \<not> is_space (hd (tail_overlap (chunk_text (cs ! k)) overlap))"
  let ?s0 = "merge_loop max_chars overlap 0 pre initial_state"
  let ?joined = "join (NL @ NL) (m_buf s3)"
  let ?s' = "merge_step max_chars overlap (length pre) sp ?s0"
  from a have ov: "0 < overlap" and full: "max_chars \<le> int (m_cur_len s3)"
    and s3: "s3 = append_span sp (on_path_change (length pre) sp (on_empty_buf (length pre) sp ?s0))"
    and sp: "fst sp \<noteq> []" "\<not> is_space (last (fst sp))"
    and cs: "cs = merge_spans (pre @ sp # rest) max_chars overlap"
    and k: "k = length (m_chunks s3)"
    and h: "\<not> is_space (hd (tail_overlap (chunk_text (cs ! k)) overlap))"
    by blast+
  have "m_buf s3 \<noteq> [] \<and> last (m_buf s3) = fst sp"
    unfolding s3 by (cases sp) (simp add: append_span_def)
  with join_last[of "m_buf s3" "NL @ NL"] sp
  have j: "?joined \<noteq> []" "\<not> is_space (last ?joined)" by simp_all
  then have "\<not> (\<forall>c \<in> set ?joined. is_space c)" using last_in_set by blast
  then have emitted: "strip ?joined \<noteq> []" by (simp add: strip_blank)
  from merge_step_keeps_tail[OF ov s3 full emitted] obtain c where
    c: "m_chunks ?s' = m_chunks s3 @ [c]" "chunk_text c = strip ?joined"
       "m_buf ?s' = [tail_overlap ?joined overlap]" by blast
  have fin: "cs = final_flush (merge_loop max_chars overlap (Suc (length pre)) rest ?s')"
    unfolding cs merge_spans_def by (simp add: merge_loop_append)
  from chunks_grow[of ?s' max_chars overlap "Suc (length pre)" rest]
  obtain cs' where cs': "cs = (m_chunks s3 @ [c]) @ cs'"
    unfolding fin[symmetric] c(1) by (auto simp: prefix_def)
  then have ck: "cs ! k = c" by (simp add: k nth_append)
  with h c(2) have h': "\<not> is_space (hd (tail_overlap (strip ?joined) overlap))" by simp
  from lstrip_tail[OF ov j h']
  have T: "lstrip (tail_overlap ?joined overlap) = tail_overlap (strip ?joined) overlap"
    "tail_overlap (strip ?joined) overlap \<noteq> []"
    "\<not> is_space (last (tail_overlap (strip ?joined) overlap))" by simp_all
  from next_chunk_has_tail[OF T c(3), of max_chars overlap "Suc (length pre)" rest]
  have "Suc k < length cs"
    "prefix (tail_overlap (strip ?joined) overlap) (chunk_text (cs ! Suc k))"
    unfolding fin[symmetric] c(1) by (simp_all add: k)
  with ck c(2) show "Suc k < length cs"
    "chunk_text (cs ! k) = strip ?joined"
    "prefix (tail_overlap (chunk_text (cs ! k)) overlap) (chunk_text (cs ! Suc k))"
    by simp_all
next
  assume "0 < overlap' \<and> overlap' < max_chars' \<and> 0 \<le> start \<and> start < int (length t) \<and>
    window_end t max_chars' start \<noteq> int (length t)"
  then have "0 < overlap'" "overlap' < max_chars'" "0 \<le> start" "start < int (length t)"
    "window_end t max_chars' start \<noteq> int (length t)" by simp_all
  from window_overlap[OF this]
  show "\<exists>others. window_loop max_chars' overlap' pn t start cs0
           = Some (cs0 @ window_chunk pn t start (window_end t max_chars' start)
                      # window_chunk pn t (next_start (window_end t max_chars' start) overlap')
                          (window_end t max_chars'
                             (next_start (window_end t max_chars' start) overlap'))
                      # others) \<and>
         prefix (tail_overlap
                   (chunk_text (window_chunk pn t start (window_end t max_chars' start))) overlap')
           (chunk_text (window_chunk pn t (next_start (window_end t max_chars' start) overlap')
              (window_end t max_chars' (next_start (window_end t max_chars' start) overlap'))))" .
qed

theorem overlap_carried_witness:
  "chunk_text (merge_spans [(''abcde'', Some 1, None), (''fg'', Some 1, None)] 5 2 ! 0) = ''abcde'' \<and>
   prefix (tail_overlap ''abcde'' 2)
     (chunk_text (merge_spans [(''abcde'', Some 1, None), (''fg'', Some 1, None)] 5 2 ! Suc 0)) \<and>
   prefix (tail_overlap (chunk_text (window_chunk 1 ''abcdefgh'' 0 (window_end ''abcdefgh'' 3 0))) 1)
     (chunk_text (window_chunk 1 ''abcdefgh'' (next_start (window_end ''abcdefgh'' 3 0) 1)
        (window_end ''abcdefgh'' 3 (next_start (window_end ''abcdefgh'' 3 0) 1))))"
proof -
  have s3: "append_span (''abcde'', Some 1, None)
        (on_path_change 0 (''abcde'', Some 1, None)
           (on_empty_buf 0 (''abcde'', Some 1, None) initial_state))
      = \<lparr>m_chunks = [], m_buf = [''abcde''], m_start = 0, m_cur_len = 5,
         m_current_path = None, m_current_page = Some 1\<rparr>"
    by (simp add: append_span_def on_path_change_def on_empty_buf_def initial_state_def)
  have nsp: "\<not> is_space CHR ''e''" "\<not> is_space CHR ''d''" by (simp_all add: is_space_def)
  have st: "strip ''abcde'' = ''abcde''"
    by (simp add: strip_def lstrip_def rstrip_def is_space_def)
  have tl: "tail_overlap ''abcde'' 2 = ''de''"
    by (simp add: tail_overlap_def py_slice_from_def clamp_index_def)
  have ms: "merge_spans [(''abcde'', Some 1, None), (''fg'', Some 1, None)] 5 2
      = [\<lparr>chunk_id = ''dl_0_0'', page = 1, chunk_text = ''abcde'', section_hint = None\<rparr>,
         \<lparr>chunk_id = ''dl_0_1'', page = 1, chunk_text = ''de'' @ NL @ NL @ ''fg'',
           section_hint = None\<rparr>]"
    by (simp add: merge_spans_def final_flush_def initial_state_def merge_step_def
        on_empty_buf_def on_path_change_def append_span_def on_full_def flush_def page_or_1_def
        NL_def strip_def lstrip_def rstrip_def is_space_def tail_overlap_def py_slice_from_def
        clamp_index_def str_nat.simps digit_char_def)
  from overlap_carried
    [of 2 "\<lparr>m_chunks = [], m_buf = [''abcde''], m_start = 0, m_cur_len = 5,
             m_current_path = None, m_current_page = Some 1\<rparr>"
        "(''abcde'', Some 1, None)" "[]" 5
        "merge_spans [(''abcde'', Some 1, None), (''fg'', Some 1, None)] 5 2"
        "[(''fg'', Some 1, None)]" 0
        1 3 0 "''abcdefgh''" 1 "[]"]
  show ?thesis
    by (simp add: s3 nsp st tl ms window_end_def)
qed

text \<open>
  C3, as stated, fails: the retained tail begins with a blank, which trimming removes from
  the next chunk.
\<close>

theorem overlap_carried_counterexample:
  "merge_spans [(''ab cd'', None, None), (''ef'', None, None)] 5 3
     = [\<lparr>chunk_id = ''dl_0_0'', page = 1, chunk_text = ''ab cd'', section_hint = None\<rparr>,
        \<lparr>chunk_id = ''dl_0_1'', page = 1, chunk_text = ''cd'' @ NL @ NL @ ''ef'',
          section_hint = None\<rparr>,
        \<lparr>chunk_id = ''dl_1_2'', page = 1, chunk_text = ''ef'', section_hint = None\<rparr>] \<and>
   tail_overlap ''ab cd'' 3 = '' cd'' \<and>
   \<not> prefix '' cd'' (''cd'' @ NL @ NL @ ''ef'')"
  by (simp add: merge_spans_def final_flush_def initial_state_def merge_step_def on_empty_buf_def
      on_path_change_def append_span_def on_full_def flush_def page_or_1_def NL_def strip_def
      lstrip_def rstrip_def is_space_def tail_overlap_def py_slice_from_def clamp_index_def
      str_nat.simps digit_char_def)

end
